theory Spec2Isabelle
  imports Main "HOL-Library.AList"
begin

section \<open>Python strings\<close>

text \<open>
  A Python \<open>str\<close> is a sequence of code points. The model takes \<open>string\<close> with one
  \<open>char\<close> per code point, so it covers the code points U+0000 to U+00FF; \<open>length\<close> is
  Python's \<open>len\<close>. The case mapping and the whitespace class below are the ones Python
  applies to these code points.
\<close>

definition bs :: string where
  "bs = [CHR 0x5C]"

definition upper_letters :: string where
  "upper_letters = ''ABCDEFGHIJKLMNOPQRSTUVWXYZ'' @
     [CHR 0xC0, CHR 0xC1, CHR 0xC2, CHR 0xC3, CHR 0xC4, CHR 0xC5, CHR 0xC6, CHR 0xC7,
      CHR 0xC8, CHR 0xC9, CHR 0xCA, CHR 0xCB, CHR 0xCC, CHR 0xCD, CHR 0xCE, CHR 0xCF,
      CHR 0xD0, CHR 0xD1, CHR 0xD2, CHR 0xD3, CHR 0xD4, CHR 0xD5, CHR 0xD6,
      CHR 0xD8, CHR 0xD9, CHR 0xDA, CHR 0xDB, CHR 0xDC, CHR 0xDD, CHR 0xDE]"

definition lower_letters :: string where
  "lower_letters = ''abcdefghijklmnopqrstuvwxyz'' @
     [CHR 0xE0, CHR 0xE1, CHR 0xE2, CHR 0xE3, CHR 0xE4, CHR 0xE5, CHR 0xE6, CHR 0xE7,
      CHR 0xE8, CHR 0xE9, CHR 0xEA, CHR 0xEB, CHR 0xEC, CHR 0xED, CHR 0xEE, CHR 0xEF,
      CHR 0xF0, CHR 0xF1, CHR 0xF2, CHR 0xF3, CHR 0xF4, CHR 0xF5, CHR 0xF6,
      CHR 0xF8, CHR 0xF9, CHR 0xFA, CHR 0xFB, CHR 0xFC, CHR 0xFD, CHR 0xFE]"

definition lower_char :: "char \<Rightarrow> char" where
  "lower_char c = (case map_of (zip upper_letters lower_letters) c of Some d \<Rightarrow> d | None \<Rightarrow> c)"

text \<open>\<^verbatim>\<open>s.lower()\<close>\<close>

definition lower :: "string \<Rightarrow> string" where
  "lower s = map lower_char s"

text \<open>The class \<^verbatim>\<open>\s\<close> of \<open>re\<close> on \<open>str\<close>, which is also what \<^verbatim>\<open>str.strip()\<close> and
  \<^verbatim>\<open>str.split()\<close> remove: TAB to CR, FS to US, space, NEL and NBSP.\<close>

definition is_space :: "char \<Rightarrow> bool" where
  "is_space c = ((of_char c :: nat) \<in> {9, 10, 11, 12, 13, 28, 29, 30, 31, 32, 133, 160})"

text \<open>The class \<^verbatim>\<open>\d\<close>.\<close>

definition is_digit :: "char \<Rightarrow> bool" where
  "is_digit c = (c \<in> set ''0123456789'')"

text \<open>\<^verbatim>\<open>s.startswith(p)\<close>\<close>

fun startswith :: "string \<Rightarrow> string \<Rightarrow> bool" where
  "startswith s [] = True"
| "startswith [] (p # ps) = False"
| "startswith (c # cs) (p # ps) = (c = p \<and> startswith cs ps)"

text \<open>\<^verbatim>\<open>sub in s\<close>\<close>

fun contains :: "string \<Rightarrow> string \<Rightarrow> bool" where
  "contains [] sub = (sub = [])"
| "contains (c # cs) sub = (startswith (c # cs) sub \<or> contains cs sub)"

text \<open>\<^verbatim>\<open>s.strip(chars)\<close>, the characters to remove given as a predicate.\<close>

definition strip_chars :: "(char \<Rightarrow> bool) \<Rightarrow> string \<Rightarrow> string" where
  "strip_chars P s = rev (dropWhile P (rev (dropWhile P s)))"

text \<open>\<^verbatim>\<open>s.strip()\<close>\<close>

definition strip :: "string \<Rightarrow> string" where
  "strip s = strip_chars is_space s"

text \<open>\<^verbatim>\<open>s.split()\<close>: the maximal runs of non-whitespace; \<open>cur\<close> is the word being read.\<close>

fun split_words :: "string \<Rightarrow> string \<Rightarrow> string list" where
  "split_words [] cur = (if cur = [] then [] else [cur])"
| "split_words (c # cs) cur =
     (if is_space c then (if cur = [] then split_words cs [] else cur # split_words cs [])
      else split_words cs (cur @ [c]))"

definition split :: "string \<Rightarrow> string list" where
  "split s = split_words s []"

text \<open>\<^verbatim>\<open>' '.join(ws)\<close>\<close>

fun join_space :: "string list \<Rightarrow> string" where
  "join_space [] = []"
| "join_space [w] = w"
| "join_space (w # v # ws) = w @ '' '' @ join_space (v # ws)"

text \<open>\<^verbatim>\<open>xs[:n]\<close> for an integer \<open>n\<close>; a negative \<open>n\<close> counts from the end.\<close>

definition slice_to :: "int \<Rightarrow> 'a list \<Rightarrow> 'a list" where
  "slice_to n xs = (if 0 \<le> n then take (nat n) xs else take (length xs - nat (- n)) xs)"

text \<open>\<^verbatim>\<open>str(n)\<close> for a natural number, as the f-strings format it.\<close>

fun str_nat :: "nat \<Rightarrow> string" where
  "str_nat n = (if n < 10 then [''0123456789'' ! n]
                else str_nat (n div 10) @ [''0123456789'' ! (n mod 10)])"

declare str_nat.simps [simp del]

text \<open>The index of the first element that satisfies \<open>P\<close>, as the \<^verbatim>\<open>enumerate\<close> loops
  with \<^verbatim>\<open>break\<close> find it.\<close>

fun first_index :: "('a \<Rightarrow> bool) \<Rightarrow> 'a list \<Rightarrow> nat option" where
  "first_index P [] = None"
| "first_index P (x # xs) =
     (if P x then Some 0 else map_option Suc (first_index P xs))"

text \<open>\<^verbatim>\<open>a or b\<close> on values that are \<open>None\<close> or a string: the first if it is a
  non-empty string, else the second.\<close>

definition py_or :: "string option \<Rightarrow> string option \<Rightarrow> string option" where
  "py_or a b = (case a of None \<Rightarrow> b | Some s \<Rightarrow> if s \<noteq> [] then Some s else b)"

text \<open>\<^verbatim>\<open>os.path.basename\<close>, \<^verbatim>\<open>os.path.splitext(p)[1]\<close> for a \<open>p\<close> without a slash, and
  \<^verbatim>\<open>os.path.join\<close> of two components (POSIX).\<close>

definition basename :: "string \<Rightarrow> string" where
  "basename p = rev (takeWhile (\<lambda>c. c \<noteq> CHR ''/'') (rev p))"

definition splitext_ext :: "string \<Rightarrow> string" where
  "splitext_ext p =
     (let suffix = rev (takeWhile (\<lambda>c. c \<noteq> CHR ''.'') (rev p));
          stem = take (length p - length suffix - 1) p
      in if CHR ''.'' \<in> set p \<and> (\<exists>c\<in>set stem. c \<noteq> CHR ''.'') then CHR ''.'' # suffix else [])"

definition path_join :: "string \<Rightarrow> string \<Rightarrow> string" where
  "path_join a b =
     (if startswith b ''/'' then b
      else if a = [] \<or> last a = CHR ''/'' then a @ b
      else a @ ''/'' @ b)"

section \<open>The regular expressions of the source\<close>

text \<open>
  Each fixed expression is written out as the function \<open>re\<close> computes for it.

  \<^verbatim>\<open>re.sub(r'[<>:"/\\|?*]', '_', text)\<close> replaces every character of the class.
\<close>

definition invalid_chars :: "char list" where
  "invalid_chars = [CHR ''<'', CHR ''>'', CHR '':'', CHR 0x22, CHR ''/'', CHR 0x5C,
                    CHR ''|'', CHR ''?'', CHR ''*'']"

definition sub_invalid :: "string \<Rightarrow> string" where
  "sub_invalid text = map (\<lambda>c. if c \<in> set invalid_chars then CHR ''_'' else c) text"

text \<open>\<^verbatim>\<open>re.sub(r'\s+', '_', text)\<close> and \<^verbatim>\<open>re.sub(r'_+', '_', text)\<close>: every maximal run
  of characters of the class \<open>P\<close> becomes one underscore.\<close>

function sub_runs :: "(char \<Rightarrow> bool) \<Rightarrow> string \<Rightarrow> string" where
  "sub_runs P [] = []"
| "sub_runs P (c # cs) =
     (if P c then CHR ''_'' # sub_runs P (dropWhile P cs) else c # sub_runs P cs)"
  by pat_completeness auto
termination
  by (relation "measure (\<lambda>(P, cs). length cs)")
     (auto simp: length_dropWhile_le less_Suc_eq_le)

text \<open>\<^verbatim>\<open>re.split(r'[.;!?\n]', text)\<close>: the pieces between the delimiters, empty ones
  included; \<open>cur\<close> is the piece being read.\<close>

definition sentence_delims :: "char list" where
  "sentence_delims = [CHR ''.'', CHR '';'', CHR ''!'', CHR ''?'', CHR 0x0A]"

fun split_sentences :: "string \<Rightarrow> string \<Rightarrow> string list" where
  "split_sentences [] cur = [cur]"
| "split_sentences (c # cs) cur =
     (if c \<in> set sentence_delims then cur # split_sentences cs []
      else split_sentences cs (cur @ [c]))"

text \<open>
  \<^verbatim>\<open>re.search(r'/styles/[^/]+/public/(.+)', s)\<close>, returning group 1. At one position the
  expression matches when \<^verbatim>\<open>/styles/\<close> is followed by the non-empty run of characters
  up to the next slash (the class \<^verbatim>\<open>[^/]\<close> must stop there, since a slash has to
  follow), then \<^verbatim>\<open>/public/\<close>, then at least one character; the greedy \<^verbatim>\<open>.+\<close> takes
  everything up to the first line feed, which \<^verbatim>\<open>.\<close> does not match. \<open>search\<close> takes
  the leftmost position that matches.
\<close>

definition styles_match :: "string \<Rightarrow> string option" where
  "styles_match s =
     (if startswith s ''/styles/'' then
        (let r = drop 8 s;
             variant = takeWhile (\<lambda>c. c \<noteq> CHR ''/'') r;
             r' = dropWhile (\<lambda>c. c \<noteq> CHR ''/'') r
         in if variant \<noteq> [] \<and> startswith r' ''/public/'' then
              (let g = takeWhile (\<lambda>c. c \<noteq> CHR 0x0A) (drop 8 r')
               in if g \<noteq> [] then Some g else None)
            else None)
      else None)"

fun styles_search :: "string \<Rightarrow> string option" where
  "styles_search [] = None"
| "styles_search (c # cs) =
     (case styles_match (c # cs) of Some g \<Rightarrow> Some g | None \<Rightarrow> styles_search cs)"

text \<open>\<^verbatim>\<open>re.compile(r'/tombs/kv-\d+').search(s)\<close> as a truth value.\<close>

fun tombs_kv_search :: "string \<Rightarrow> bool" where
  "tombs_kv_search [] = False"
| "tombs_kv_search (c # cs) =
     ((startswith (c # cs) ''/tombs/kv-'' \<and> takeWhile is_digit (drop 10 (c # cs)) \<noteq> [])
      \<or> tombs_kv_search cs)"

text \<open>\<^verbatim>\<open>re.search(r'/kv-(\d+)', s)\<close>, returning group 1.\<close>

fun kv_search :: "string \<Rightarrow> string option" where
  "kv_search [] = None"
| "kv_search (c # cs) =
     (if startswith (c # cs) ''/kv-'' \<and> takeWhile is_digit (drop 4 (c # cs)) \<noteq> []
      then Some (takeWhile is_digit (drop 4 (c # cs)))
      else kv_search cs)"

section \<open>Parsed pages\<close>

text \<open>
  The tree BeautifulSoup builds: text nodes and elements with a name, attributes and
  children. The document object itself is the root element \<open>[document]\<close>, whose parent
  is \<open>None\<close>.
\<close>

datatype node = Text string | Elem string "(string \<times> string) list" "node list"

text \<open>An element as \<open>find_all\<close> returns it: its name, its attributes, and the chain
  \<^verbatim>\<open>.parent\<close>, \<^verbatim>\<open>.parent.parent\<close>, ... up to the document object.\<close>

record tag =
  tag_name :: string
  tag_attrs :: "(string \<times> string) list"
  tag_parents :: "node list"

fun strings_of :: "node \<Rightarrow> string list" where
  "strings_of (Text s) = [s]"
| "strings_of (Elem n as cs) = concat (map strings_of cs)"

text \<open>\<^verbatim>\<open>el.get_text()\<close> and \<^verbatim>\<open>el.get_text(strip=True)\<close>: the second strips every text
  node and leaves the empty ones out.\<close>

definition get_text :: "node \<Rightarrow> string" where
  "get_text n = concat (strings_of n)"

definition get_text_strip :: "node \<Rightarrow> string" where
  "get_text_strip n = concat (filter (\<lambda>s. s \<noteq> []) (map strip (strings_of n)))"

fun tags_below :: "node list \<Rightarrow> node \<Rightarrow> tag list" where
  "tags_below ps (Text s) = []"
| "tags_below ps (Elem n as cs) =
     \<lparr>tag_name = n, tag_attrs = as, tag_parents = ps\<rparr>
       # concat (map (tags_below (Elem n as cs # ps)) cs)"

text \<open>\<^verbatim>\<open>soup.find_all(...)\<close>: the elements below the document object, in document order,
  that satisfy the filter.\<close>

definition find_all :: "node \<Rightarrow> (tag \<Rightarrow> bool) \<Rightarrow> tag list" where
  "find_all soup P =
     (case soup of Text s \<Rightarrow> []
      | Elem n as cs \<Rightarrow> filter P (concat (map (tags_below [soup]) cs)))"

text \<open>What the image loop iterates over: an element of the page, or the plain \<open>dict\<close>
  \<^verbatim>\<open>{'src': src}\<close> appended for an element with a \<^verbatim>\<open>data-src\<close> attribute.\<close>

datatype element = Tag tag | Dict "(string \<times> string) list"

text \<open>\<^verbatim>\<open>img.get(key)\<close>, defined for both.\<close>

definition get_attr :: "element \<Rightarrow> string \<Rightarrow> string option" where
  "get_attr img k = (case img of Tag t \<Rightarrow> map_of (tag_attrs t) k | Dict d \<Rightarrow> map_of d k)"

section \<open>Configuration\<close>

record config =
  name :: string
  cfg_keywords :: "string list"
  patterns :: "string list"
  sections :: "(int \<times> string) list"
  section_mapping :: "(string \<times> int) list"

definition amduat_config :: config where
  "amduat_config = \<lparr>
     name = ''Amduat'',
     cfg_keywords = [''amduat'', ''imydwat''],
     patterns = [
       ''imydwat[,'' @ bs @ ''s]*('' @ bs @ ''w+)'' @ bs @ ''s+hour'',
       ''amduat[,'' @ bs @ ''s]*('' @ bs @ ''w+)'' @ bs @ ''s+hour'',
       ''('' @ bs @ ''w+)'' @ bs @ ''s+hour'' @ bs @ ''s+of'' @ bs @ ''s+(?:the'' @ bs @ ''s+)?(?:imydwat|amduat)'',
       ''hour'' @ bs @ ''s+('' @ bs @ ''d+)[,'' @ bs @ ''s]*(?:imydwat|amduat)''],
     sections = [
       (1, ''prima_ora''), (2, ''seconda_ora''), (3, ''terza_ora''), (4, ''quarta_ora''),
       (5, ''quinta_ora''), (6, ''sesta_ora''), (7, ''settima_ora''), (8, ''ottava_ora''),
       (9, ''nona_ora''), (10, ''decima_ora''), (11, ''undicesima_ora''),
       (12, ''dodicesima_ora'')],
     section_mapping = [
       (''first'', 1), (''second'', 2), (''third'', 3), (''fourth'', 4), (''fifth'', 5),
       (''sixth'', 6), (''seventh'', 7), (''eighth'', 8), (''ninth'', 9), (''tenth'', 10),
       (''eleventh'', 11), (''twelfth'', 12),
       (''1'', 1), (''2'', 2), (''3'', 3), (''4'', 4), (''5'', 5), (''6'', 6),
       (''7'', 7), (''8'', 8), (''9'', 9), (''10'', 10), (''11'', 11), (''12'', 12)]\<rparr>"

definition caverns_config :: config where
  "caverns_config = \<lparr>
     name = ''Book of Caverns'',
     cfg_keywords = [''caverns'', ''book of caverns''],
     patterns = [
       ''(?:book'' @ bs @ ''s+of'' @ bs @ ''s+)?caverns[,'' @ bs @ ''s]*('' @ bs @ ''w+)'' @ bs @ ''s+(?:section|part|division)'',
       ''('' @ bs @ ''w+)'' @ bs @ ''s+(?:section|part|division)'' @ bs @ ''s+of'' @ bs @ ''s+(?:the'' @ bs @ ''s+)?(?:book'' @ bs @ ''s+of'' @ bs @ ''s+)?caverns'',
       ''(?:section|part|division)'' @ bs @ ''s+('' @ bs @ ''d+)[,'' @ bs @ ''s]*(?:book'' @ bs @ ''s+of'' @ bs @ ''s+)?caverns''],
     sections = [
       (1, ''prima_sezione''), (2, ''seconda_sezione''), (3, ''terza_sezione''),
       (4, ''quarta_sezione''), (5, ''quinta_sezione''), (6, ''sesta_sezione'')],
     section_mapping = [
       (''first'', 1), (''second'', 2), (''third'', 3), (''fourth'', 4), (''fifth'', 5),
       (''sixth'', 6),
       (''1'', 1), (''2'', 2), (''3'', 3), (''4'', 4), (''5'', 5), (''6'', 6)]\<rparr>"

definition FUNERARY_TEXT_CONFIGS :: "(string \<times> config) list" where
  "FUNERARY_TEXT_CONFIGS = [(''amduat'', amduat_config), (''caverns'', caverns_config)]"

definition base_url :: string where
  "base_url = ''https://thebanmappingproject.com''"

section \<open>The collaborators\<close>

text \<open>
  What the scraper calls and does not define. \<open>session_get\<close> is \<^verbatim>\<open>session.get(url)\<close>:
  it raises (a \<open>requests\<close> exception) or returns a response, given here by its status
  code and its body as parsed by BeautifulSoup. \<open>re_findall p s\<close> is \<^verbatim>\<open>re.findall(p, s)\<close>
  for the patterns of a configuration, each of which has one capturing group, so the
  result is the list of that group's values. \<open>urljoin\<close> is \<^verbatim>\<open>urllib.parse.urljoin\<close>.
  \<open>file_write_ok path\<close> tells whether opening and writing the file succeeds.
  \<open>tomb_name_of\<close> stands for the method \<^verbatim>\<open>extract_tomb_name(soup, tomb_url)\<close>, which reads
  the title and the first heading, returns a string and cannot raise; its value is only
  stored as the third component of the entries.
\<close>

datatype response = ConnectionError | Response int node

record env =
  session_get :: "string \<Rightarrow> response"
  re_findall :: "string \<Rightarrow> string \<Rightarrow> string list"
  urljoin :: "string \<Rightarrow> string \<Rightarrow> string"
  tomb_name_of :: "node \<Rightarrow> string \<Rightarrow> string"
  file_write_ok :: "string \<Rightarrow> bool"

text \<open>The exceptions that can leave a method of the scraper.\<close>

datatype error = TransportError | AttributeError | KeyError | ValueError

section \<open>ThebanScraper\<close>

record scraper =
  text_type :: string
  scraper_config :: config

text \<open>\<^verbatim>\<open>ThebanScraper.__init__\<close>\<close>

definition ThebanScraper :: "string \<Rightarrow> error + scraper" where
  "ThebanScraper tt =
     (case map_of FUNERARY_TEXT_CONFIGS tt of
        None \<Rightarrow> Inl ValueError
      | Some cfg \<Rightarrow> Inr \<lparr>text_type = tt, scraper_config = cfg\<rparr>)"

text \<open>\<^verbatim>\<open>get_tombs_list\<close>: the links whose \<open>href\<close> the expression finds, made absolute, each
  kept once in order of first appearance; the empty list when the status is not 200.
  Every link the filter keeps has an \<open>href\<close>, so \<^verbatim>\<open>link['href']\<close> is defined.\<close>

fun add_new :: "'a list \<Rightarrow> 'a list \<Rightarrow> 'a list" where
  "add_new acc [] = acc"
| "add_new acc (x # xs) = add_new (if x \<notin> set acc then acc @ [x] else acc) xs"

definition tomb_link :: "tag \<Rightarrow> bool" where
  "tomb_link t =
     (tag_name t = ''a'' \<and>
      (case map_of (tag_attrs t) ''href'' of None \<Rightarrow> False | Some h \<Rightarrow> tombs_kv_search h))"

definition get_tombs_list :: "env \<Rightarrow> error + string list" where
  "get_tombs_list e =
     (case session_get e (base_url @ ''/valley-kings'') of
        ConnectionError \<Rightarrow> Inl TransportError
      | Response status_code soup \<Rightarrow>
          if status_code = 200 then
            Inr (add_new []
                  (concat (map (\<lambda>link. case map_of (tag_attrs link) ''href'' of
                                          None \<Rightarrow> []
                                        | Some href \<Rightarrow> [urljoin e base_url href])
                               (find_all soup tomb_link))))
          else Inr [])"

text \<open>\<^verbatim>\<open>sanitize_filename\<close>\<close>

definition sanitize_filename :: "string \<Rightarrow> int \<Rightarrow> string" where
  "sanitize_filename text max_length =
     (let t1 = sub_invalid text;
          t2 = sub_runs is_space t1;
          t3 = sub_runs (\<lambda>c. c = CHR ''_'') t2;
          t4 = strip_chars (\<lambda>c. c = CHR ''_'') t3;
          t5 = (if int (length t4) > max_length then slice_to max_length t4 else t4)
      in if t5 \<noteq> [] then t5 else ''unnamed'')"

section \<open>The section classifier\<close>

text \<open>Section number to the entries \<open>(img_url, caption, tomb_name)\<close> found for it, in the
  order of the dictionary.\<close>

type_synonym buckets = "(int \<times> (string \<times> string \<times> string) list) list"

definition denylist :: "string list" where
  "denylist = [''logo'', ''icon'', ''compass'', ''hieroglyph'']"

definition denylisted :: "string \<Rightarrow> bool" where
  "denylisted img_src = list_ex (\<lambda>skip. contains (lower img_src) skip) denylist"

definition normalize_src :: "string \<Rightarrow> string" where
  "normalize_src img_src =
     (if contains img_src ''/styles/'' then
        (case styles_search img_src of
           Some g \<Rightarrow> ''/sites/default/files/'' @ g
         | None \<Rightarrow> img_src)
      else img_src)"

text \<open>The list \<open>images\<close>: the \<open>img\<close> elements, then one \<open>dict\<close> for every element with a
  non-empty \<^verbatim>\<open>data-src\<close>.\<close>

definition page_images :: "node \<Rightarrow> element list" where
  "page_images soup =
     map Tag (find_all soup (\<lambda>t. tag_name t = ''img'')) @
     concat (map (\<lambda>el. case map_of (tag_attrs el) ''data-src'' of
                          None \<Rightarrow> []
                        | Some src \<Rightarrow> if src \<noteq> [] then [Dict [(''src'', src)]] else [])
                 (find_all soup (\<lambda>t. map_of (tag_attrs t) ''data-src'' \<noteq> None)))"

definition alt_context :: "element \<Rightarrow> string" where
  "alt_context img =
     (case get_attr img ''alt'' of None \<Rightarrow> [] | Some a \<Rightarrow> if a \<noteq> [] then lower a else [])"

text \<open>The loop over three levels of parents: what it appends to \<open>img_context\<close>, and the
  \<open>context_text\<close> it keeps, the first stripped text that is not empty.\<close>

definition parent_context :: "node list \<Rightarrow> string" where
  "parent_context ps = concat (map (\<lambda>parent. '' '' @ lower (get_text parent)) (take 3 ps))"

definition closest_text :: "node list \<Rightarrow> string" where
  "closest_text ps =
     (case filter (\<lambda>s. s \<noteq> []) (map get_text_strip (take 3 ps)) of [] \<Rightarrow> [] | s # _ \<Rightarrow> s)"

text \<open>\<^verbatim>\<open>if section_found:\<close> on a value that is \<open>None\<close> or an integer.\<close>

definition truthy :: "int option \<Rightarrow> bool" where
  "truthy sf = (case sf of None \<Rightarrow> False | Some v \<Rightarrow> v \<noteq> 0)"

text \<open>The inner loop over the matches of one pattern: the value of the first match whose
  lowercased text is a key of the mapping.\<close>

fun first_hit :: "(string \<times> int) list \<Rightarrow> string list \<Rightarrow> int option" where
  "first_hit m [] = None"
| "first_hit m (x # xs) =
     (case map_of m (lower x) of Some v \<Rightarrow> Some v | None \<Rightarrow> first_hit m xs)"

text \<open>The outer loop over the patterns, with the current \<open>section_found\<close>; \<open>matches p\<close> is
  \<^verbatim>\<open>re.findall(p, img_context)\<close>.\<close>

fun pattern_loop ::
  "(string \<Rightarrow> string list) \<Rightarrow> (string \<times> int) list \<Rightarrow> int option \<Rightarrow> string list \<Rightarrow> int option"
where
  "pattern_loop matches m section_found [] = section_found"
| "pattern_loop matches m section_found (p # ps) =
     (let section_found' =
            (case first_hit m (matches p) of Some v \<Rightarrow> Some v | None \<Rightarrow> section_found)
      in if truthy section_found' then section_found'
         else pattern_loop matches m section_found' ps)"

definition find_section :: "env \<Rightarrow> config \<Rightarrow> string \<Rightarrow> int option" where
  "find_section e cfg img_context =
     pattern_loop (\<lambda>p. re_findall e p img_context) (section_mapping cfg) None (patterns cfg)"

text \<open>The caption: the first sentence with a keyword, else a window of words around the
  first word with a keyword, else \<open>alt\<close>, else \<open>title\<close>, else the empty string.\<close>

definition has_keyword :: "string list \<Rightarrow> string \<Rightarrow> bool" where
  "has_keyword kws s = list_ex (\<lambda>keyword. contains (lower s) keyword) kws"

definition matching_sentence :: "string list \<Rightarrow> string \<Rightarrow> string" where
  "matching_sentence kws context_text =
     (case find (has_keyword kws) (split_sentences context_text []) of
        None \<Rightarrow> []
      | Some sentence \<Rightarrow> strip sentence)"

definition matching_window :: "string list \<Rightarrow> string \<Rightarrow> string" where
  "matching_window kws context_text =
     (let words = split context_text
      in case first_index (has_keyword kws) words of
           None \<Rightarrow> []
         | Some i \<Rightarrow>
             (let start = i - 5; stop = min (length words) (i + 10)
              in join_space (take (stop - start) (drop start words))))"

definition matching_text :: "string list \<Rightarrow> string \<Rightarrow> string" where
  "matching_text kws context_text =
     (let m = matching_sentence kws context_text
      in if m \<noteq> [] then m else matching_window kws context_text)"

definition caption_of :: "string list \<Rightarrow> string \<Rightarrow> element \<Rightarrow> string" where
  "caption_of kws context_text img =
     (case py_or (py_or (Some (matching_text kws context_text)) (get_attr img ''alt''))
                 (get_attr img ''title'') of
        None \<Rightarrow> []
      | Some s \<Rightarrow> s)"

text \<open>One pass of the loop \<^verbatim>\<open>for img in images\<close> of \<open>extract_funerary_text_images\<close>. A
  \<open>dict\<close> has \<open>get\<close> but no attribute \<open>parent\<close>, so \<^verbatim>\<open>img.parent\<close> raises
  \<open>AttributeError\<close> for it.\<close>

definition process_image ::
  "env \<Rightarrow> config \<Rightarrow> string \<Rightarrow> element \<Rightarrow> buckets \<Rightarrow> error + buckets"
where
  "process_image e cfg tomb_name img images_by_section =
     (case py_or (get_attr img ''src'') (get_attr img ''data-src'') of
        None \<Rightarrow> Inr images_by_section
      | Some img_src \<Rightarrow>
          if img_src = [] then Inr images_by_section
          else if denylisted img_src then Inr images_by_section
          else
            (let img_url = urljoin e base_url (normalize_src img_src)
             in case img of
                  Dict d \<Rightarrow> Inl AttributeError
                | Tag t \<Rightarrow>
                    (let img_context = alt_context img @ parent_context (tag_parents t);
                         context_text = closest_text (tag_parents t)
                     in case find_section e cfg img_context of
                          None \<Rightarrow> Inr images_by_section
                        | Some section_found \<Rightarrow>
                            if section_found \<noteq> 0 \<and> map_of (sections cfg) section_found \<noteq> None
                            then
                              (case map_of images_by_section section_found of
                                 None \<Rightarrow> Inl KeyError
                               | Some found \<Rightarrow>
                                   if list_ex (\<lambda>(url, _, _). url = img_url) found
                                   then Inr images_by_section
                                   else Inr (AList.update section_found
                                          (found @ [(img_url,
                                                     caption_of (cfg_keywords cfg) context_text img,
                                                     tomb_name)])
                                          images_by_section))
                            else Inr images_by_section)))"

fun image_loop ::
  "env \<Rightarrow> config \<Rightarrow> string \<Rightarrow> element list \<Rightarrow> buckets \<Rightarrow> error + buckets"
where
  "image_loop e cfg tomb_name [] images_by_section = Inr images_by_section"
| "image_loop e cfg tomb_name (img # images) images_by_section =
     (case process_image e cfg tomb_name img images_by_section of
        Inl err \<Rightarrow> Inl err
      | Inr images_by_section' \<Rightarrow> image_loop e cfg tomb_name images images_by_section')"

definition empty_buckets :: "config \<Rightarrow> (int \<times> 'a list) list" where
  "empty_buckets cfg = map (\<lambda>(i, _). (i, [])) (sections cfg)"

definition extract_funerary_text_images :: "env \<Rightarrow> config \<Rightarrow> string \<Rightarrow> error + buckets" where
  "extract_funerary_text_images e cfg tomb_url =
     (case session_get e tomb_url of
        ConnectionError \<Rightarrow> Inl TransportError
      | Response status_code soup \<Rightarrow>
          if status_code \<noteq> 200 then Inr (empty_buckets cfg)
          else image_loop e cfg (tomb_name_of e soup tomb_url) (page_images soup)
                 (empty_buckets cfg))"

section \<open>The archiver\<close>

text \<open>The run-wide dictionary: section number to a dictionary from image URL to
  \<open>(caption, tomb_name)\<close>.\<close>

type_synonym all_images = "(int \<times> (string \<times> (string \<times> string)) list) list"

fun merge_img_data ::
  "(string \<times> string \<times> string) list \<Rightarrow> (string \<times> (string \<times> string)) list
     \<Rightarrow> (string \<times> (string \<times> string)) list"
where
  "merge_img_data [] d = d"
| "merge_img_data ((img_url, caption, tomb_name) # rest) d =
     merge_img_data rest
       (if map_of d img_url = None then AList.update img_url (caption, tomb_name) d else d)"

fun merge_sections :: "buckets \<Rightarrow> all_images \<Rightarrow> error + all_images" where
  "merge_sections [] all_imgs = Inr all_imgs"
| "merge_sections ((section, img_data) # rest) all_imgs =
     (if img_data = [] then merge_sections rest all_imgs
      else case map_of all_imgs section of
             None \<Rightarrow> Inl KeyError
           | Some d \<Rightarrow>
               merge_sections rest (AList.update section (merge_img_data img_data d) all_imgs))"

fun tomb_loop :: "env \<Rightarrow> config \<Rightarrow> string list \<Rightarrow> all_images \<Rightarrow> error + all_images" where
  "tomb_loop e cfg [] all_imgs = Inr all_imgs"
| "tomb_loop e cfg (tomb_url # tomb_urls) all_imgs =
     (case extract_funerary_text_images e cfg tomb_url of
        Inl err \<Rightarrow> Inl err
      | Inr images_by_section \<Rightarrow>
          (case merge_sections images_by_section all_imgs of
             Inl err \<Rightarrow> Inl err
           | Inr all_imgs' \<Rightarrow> tomb_loop e cfg tomb_urls all_imgs'))"

text \<open>\<^verbatim>\<open>download_image\<close>: every exception of the request or of the file is caught.\<close>

definition download_image :: "env \<Rightarrow> string \<Rightarrow> string \<Rightarrow> bool" where
  "download_image e url filepath =
     (case session_get e url of
        ConnectionError \<Rightarrow> False
      | Response status_code body \<Rightarrow> status_code = 200 \<and> file_write_ok e filepath)"

definition image_filename :: "nat \<Rightarrow> string \<Rightarrow> string \<Rightarrow> string \<Rightarrow> string" where
  "image_filename idx img_url caption tomb_name =
     (let tomb_id_prefix = (case kv_search img_url of
                              None \<Rightarrow> []
                            | Some d \<Rightarrow> ''kv'' @ d @ ''_'');
          base_filename = takeWhile (\<lambda>c. c \<noteq> CHR ''?'') (basename img_url);
          extension = (if splitext_ext base_filename \<noteq> [] then splitext_ext base_filename
                       else ''.jpg'');
          sanitized_tomb_name = sanitize_filename tomb_name 100
      in if caption \<noteq> [] then
           tomb_id_prefix @ sanitized_tomb_name @ ''_'' @ sanitize_filename caption 100 @ extension
         else if base_filename \<noteq> [] then
           tomb_id_prefix @ sanitized_tomb_name @ ''_'' @ base_filename
         else
           tomb_id_prefix @ sanitized_tomb_name @ ''_image_'' @ str_nat idx @ extension)"

text \<open>The download loops. The result lists, for every image tried, its file path and
  whether \<open>download_image\<close> returned \<open>True\<close>.\<close>

definition download_section ::
  "env \<Rightarrow> string \<Rightarrow> (string \<times> (string \<times> string)) list \<Rightarrow> (string \<times> bool) list"
where
  "download_section e section_dir img_dict =
     map (\<lambda>(idx, (img_url, (caption, tomb_name))).
            (let filepath = path_join section_dir (image_filename idx img_url caption tomb_name)
             in (filepath, download_image e img_url filepath)))
         (zip [1 ..< Suc (length img_dict)] img_dict)"

fun download_all ::
  "env \<Rightarrow> string \<Rightarrow> (int \<times> string) list \<Rightarrow> all_images \<Rightarrow> error + (string \<times> bool) list"
where
  "download_all e base_dir secs [] = Inr []"
| "download_all e base_dir secs ((section_num, img_dict) # rest) =
     (if img_dict = [] then download_all e base_dir secs rest
      else case map_of secs section_num of
             None \<Rightarrow> Inl KeyError
           | Some section_name \<Rightarrow>
               (case download_all e base_dir secs rest of
                  Inl err \<Rightarrow> Inl err
                | Inr files \<Rightarrow>
                    Inr (download_section e (path_join base_dir section_name) img_dict @ files)))"

record run =
  run_images :: all_images
  run_files :: "(string \<times> bool) list"
  total_downloaded :: nat

text \<open>\<^verbatim>\<open>scrape_all_tombs\<close>. Creating the folders is taken to succeed and returns
  \<open>base_dir\<close>, the text type; the pauses are left out.\<close>

definition scrape_all_tombs :: "env \<Rightarrow> scraper \<Rightarrow> error + run" where
  "scrape_all_tombs e self =
     (let cfg = scraper_config self; base_dir = text_type self
      in case get_tombs_list e of
           Inl err \<Rightarrow> Inl err
         | Inr tomb_urls \<Rightarrow>
             (case tomb_loop e cfg tomb_urls (empty_buckets cfg) of
                Inl err \<Rightarrow> Inl err
              | Inr all_imgs \<Rightarrow>
                  (case download_all e base_dir (sections cfg) all_imgs of
                     Inl err \<Rightarrow> Inl err
                   | Inr files \<Rightarrow>
                       Inr \<lparr>run_images = all_imgs, run_files = files,
                            total_downloaded = length (filter snd files)\<rparr>)))"

text \<open>The last but one line the run prints.\<close>

definition summary :: "run \<Rightarrow> string" where
  "summary r = [CHR 0x0A] @ ''Scraping complete! Downloaded '' @ str_nat (total_downloaded r)
                 @ '' images''"

section \<open>AmduatScraper\<close>

text \<open>The earlier script \<^verbatim>\<open>amduat_scraper.py\<close> has the same image loop with its own
  tables and without captions: hour number to the list of image URLs.\<close>

type_synonym hours = "(int \<times> string list) list"

definition amduat_patterns :: "string list" where
  "amduat_patterns = [
     ''imydwat[,'' @ bs @ ''s]*('' @ bs @ ''w+)'' @ bs @ ''s+hour'',
     ''amduat[,'' @ bs @ ''s]*('' @ bs @ ''w+)'' @ bs @ ''s+hour'',
     ''('' @ bs @ ''w+)'' @ bs @ ''s+hour'' @ bs @ ''s+of'' @ bs @ ''s+(?:the'' @ bs @ ''s+)?(?:imydwat|amduat)'',
     ''hour'' @ bs @ ''s+('' @ bs @ ''d+)[,'' @ bs @ ''s]*(?:imydwat|amduat)'']"

definition hour_mapping :: "(string \<times> int) list" where
  "hour_mapping = [
     (''first'', 1), (''second'', 2), (''third'', 3), (''fourth'', 4),
     (''fifth'', 5), (''sixth'', 6), (''seventh'', 7), (''eighth'', 8),
     (''ninth'', 9), (''tenth'', 10), (''eleventh'', 11), (''twelfth'', 12),
     (''1'', 1), (''2'', 2), (''3'', 3), (''4'', 4), (''5'', 5), (''6'', 6),
     (''7'', 7), (''8'', 8), (''9'', 9), (''10'', 10), (''11'', 11), (''12'', 12)]"

definition find_hour :: "env \<Rightarrow> string \<Rightarrow> int option" where
  "find_hour e img_context =
     pattern_loop (\<lambda>p. re_findall e p img_context) hour_mapping None amduat_patterns"

definition process_image_amduat :: "env \<Rightarrow> element \<Rightarrow> hours \<Rightarrow> error + hours" where
  "process_image_amduat e img images_by_hour =
     (case py_or (get_attr img ''src'') (get_attr img ''data-src'') of
        None \<Rightarrow> Inr images_by_hour
      | Some img_src \<Rightarrow>
          if img_src = [] then Inr images_by_hour
          else if denylisted img_src then Inr images_by_hour
          else
            (let img_url = urljoin e base_url (normalize_src img_src)
             in case img of
                  Dict d \<Rightarrow> Inl AttributeError
                | Tag t \<Rightarrow>
                    (let img_context = alt_context img @ parent_context (tag_parents t)
                     in case find_hour e img_context of
                          None \<Rightarrow> Inr images_by_hour
                        | Some hour_found \<Rightarrow>
                            if hour_found \<noteq> 0 \<and> 1 \<le> hour_found \<and> hour_found \<le> 12 then
                              (case map_of images_by_hour hour_found of
                                 None \<Rightarrow> Inl KeyError
                               | Some urls \<Rightarrow>
                                   if img_url \<in> set urls then Inr images_by_hour
                                   else Inr (AList.update hour_found (urls @ [img_url])
                                               images_by_hour))
                            else Inr images_by_hour)))"

fun image_loop_amduat :: "env \<Rightarrow> element list \<Rightarrow> hours \<Rightarrow> error + hours" where
  "image_loop_amduat e [] images_by_hour = Inr images_by_hour"
| "image_loop_amduat e (img # images) images_by_hour =
     (case process_image_amduat e img images_by_hour of
        Inl err \<Rightarrow> Inl err
      | Inr images_by_hour' \<Rightarrow> image_loop_amduat e images images_by_hour')"

definition extract_amduat_images :: "env \<Rightarrow> string \<Rightarrow> error + hours" where
  "extract_amduat_images e tomb_url =
     (case session_get e tomb_url of
        ConnectionError \<Rightarrow> Inl TransportError
      | Response status_code soup \<Rightarrow>
          if status_code \<noteq> 200 then Inr (map (\<lambda>i. (i, [])) [1 .. 12])
          else image_loop_amduat e (page_images soup) (map (\<lambda>i. (i, [])) [1 .. 12]))"

section \<open>Notions used in the statements\<close>

text \<open>A run of two underscores somewhere in a string.\<close>

fun double_underscore :: "string \<Rightarrow> bool" where
  "double_underscore (a # b # cs) =
     ((a = CHR ''_'' \<and> b = CHR ''_'') \<or> double_underscore (b # cs))"
| "double_underscore _ = False"

text \<open>A world for the examples: no page can be fetched, no pattern matches, and a
  reference is resolved by appending it to the base, which is what \<open>urljoin\<close> does with
  the absolute paths of the examples.\<close>

definition example_env :: env where
  "example_env = \<lparr>
     session_get = (\<lambda>url. ConnectionError),
     re_findall = (\<lambda>p s. []),
     urljoin = (\<lambda>base ref. base @ ref),
     tomb_name_of = (\<lambda>soup url. ''KV 9''),
     file_write_ok = (\<lambda>path. True)\<rparr>"

text \<open>A world in which every pattern finds the word \<open>third\<close>, and a page with one
  picture in a paragraph about the third hour.\<close>

definition third_hour_env :: env where
  "third_hour_env = example_env\<lparr>re_findall := (\<lambda>p s. [''third''])\<rparr>"

definition picture_page :: "(string \<times> string) list \<Rightarrow> node" where
  "picture_page attrs =
     Elem ''[document]'' [] [Elem ''p'' [] [Text ''Amduat, third hour.'', Elem ''img'' attrs []]]"

definition picture :: "(string \<times> string) list \<Rightarrow> element" where
  "picture attrs = Tag \<lparr>tag_name = ''img'', tag_attrs = attrs,
     tag_parents = [Elem ''p'' [] [Text ''Amduat, third hour.'', Elem ''img'' attrs []],
                    picture_page attrs]\<rparr>"

text \<open>
  The rule of the specification for the section number, in its own words: the first
  pattern, in the configured order, that yields at least one captured group whose
  lowercased value is a key of the mapping wins, and the section is the number the
  mapping gives for the first such group.
\<close>

definition resolves :: "env \<Rightarrow> (string \<times> int) list \<Rightarrow> string \<Rightarrow> string \<Rightarrow> bool" where
  "resolves e m img_context p =
     list_ex (\<lambda>x. map_of m (lower x) \<noteq> None) (re_findall e p img_context)"

definition section_by_priority ::
  "env \<Rightarrow> (string \<times> int) list \<Rightarrow> string list \<Rightarrow> string \<Rightarrow> int option"
where
  "section_by_priority e m ps img_context =
     (case find (resolves e m img_context) ps of
        None \<Rightarrow> None
      | Some p \<Rightarrow>
          (case find (\<lambda>x. map_of m (lower x) \<noteq> None) (re_findall e p img_context) of
             None \<Rightarrow> None
           | Some x \<Rightarrow> map_of m (lower x)))"

text \<open>A world in which the first pattern of the Amduat finds only a word that is no
  key, the second finds \<open>Fourth\<close>, and the later ones find \<open>5\<close>; and one that differs
  from it on the later patterns only.\<close>

definition priority_env :: env where
  "priority_env = example_env\<lparr>re_findall :=
     (\<lambda>p s. if p = patterns amduat_config ! 0 then [''guardians'']
            else if p = patterns amduat_config ! 1 then [''the'', ''Fourth'', ''sixth'']
            else [''5''])\<rparr>"

definition priority_env' :: env where
  "priority_env' = example_env\<lparr>re_findall :=
     (\<lambda>p s. if p = patterns amduat_config ! 0 then [''guardians'']
            else if p = patterns amduat_config ! 1 then [''the'', ''Fourth'', ''sixth'']
            else [''12''])\<rparr>"

text \<open>A world in which every tomb page is the page with the picture
  \<^verbatim>\<open>/images/wall.png\<close>, and every pattern finds \<open>third\<close>.\<close>

definition wall_attrs :: "(string \<times> string) list" where
  "wall_attrs = [(''src'', ''/images/wall.png''), (''alt'', ''Amduat, third hour'')]"

definition wall_env :: env where
  "wall_env = third_hour_env\<lparr>session_get := (\<lambda>url. Response 200 (picture_page wall_attrs))\<rparr>"

text \<open>A page whose only picture is a \<open>div\<close> with a \<^verbatim>\<open>data-src\<close> attribute, and a world that
  serves it for every tomb.\<close>

definition lazy_page :: node where
  "lazy_page =
     Elem ''[document]'' []
       [Elem ''p'' [] [Text ''Amduat, third hour.'',
                       Elem ''div'' [(''data-src'', ''/images/wall.png'')] []]]"

definition lazy_env :: env where
  "lazy_env = third_hour_env\<lparr>session_get := (\<lambda>url. Response 200 lazy_page)\<rparr>"

text \<open>A listing page with two tombs, and three worlds that serve it: in the first the
  request for the first tomb raises, in the second it is answered with status 404, in
  the third the listing itself is answered with status 503. The second tomb has the
  picture \<^verbatim>\<open>/images/wall.png\<close>.\<close>

definition listing_page :: node where
  "listing_page =
     Elem ''[document]'' []
       [Elem ''a'' [(''href'', ''/tombs/kv-1'')] [Text ''KV 1''],
        Elem ''a'' [(''href'', ''/tombs/kv-2'')] [Text ''KV 2'']]"

definition raising_env :: env where
  "raising_env = third_hour_env\<lparr>session_get :=
     (\<lambda>url. if url = ''https://thebanmappingproject.com/valley-kings'' then Response 200 listing_page
            else if url = ''https://thebanmappingproject.com/tombs/kv-1'' then ConnectionError
            else Response 200 (picture_page wall_attrs))\<rparr>"

definition not_found_env :: env where
  "not_found_env = third_hour_env\<lparr>session_get :=
     (\<lambda>url. if url = ''https://thebanmappingproject.com/valley-kings'' then Response 200 listing_page
            else if url = ''https://thebanmappingproject.com/tombs/kv-1''
            then Response 404 (Elem ''[document]'' [] [])
            else Response 200 (picture_page wall_attrs))\<rparr>"

definition no_listing_env :: env where
  "no_listing_env = third_hour_env\<lparr>session_get :=
     (\<lambda>url. if url = ''https://thebanmappingproject.com/valley-kings''
            then Response 503 (Elem ''[document]'' [] [])
            else Response 200 (picture_page wall_attrs))\<rparr>"

definition amduat_scraper :: scraper where
  "amduat_scraper = \<lparr>text_type = ''amduat'', scraper_config = amduat_config\<rparr>"

text \<open>Everything the classifier finds for section \<open>s\<close> over a list of tomb pages, in the
  order of the run; and an entry in the form the run-wide dictionary stores it.\<close>

definition found_for :: "env \<Rightarrow> config \<Rightarrow> int \<Rightarrow> string list \<Rightarrow> (string \<times> string \<times> string) list" where
  "found_for e cfg s tomb_urls =
     concat (map (\<lambda>tomb_url.
                    case extract_funerary_text_images e cfg tomb_url of
                      Inl err \<Rightarrow> []
                    | Inr images_by_section \<Rightarrow>
                        (case map_of images_by_section s of None \<Rightarrow> [] | Some found \<Rightarrow> found))
                 tomb_urls)"

definition as_entry :: "string \<times> string \<times> string \<Rightarrow> string \<times> (string \<times> string)" where
  "as_entry = (\<lambda>(img_url, caption, tomb_name). (img_url, (caption, tomb_name)))"

text \<open>Two tombs that show the same picture with different texts; every pattern finds
  \<open>second\<close>.\<close>

definition captioned_page :: "string \<Rightarrow> node" where
  "captioned_page caption =
     Elem ''[document]'' []
       [Elem ''p'' [] [Text caption, Elem ''img'' [(''src'', ''/images/wall.png'')] []]]"

definition two_tombs_env :: env where
  "two_tombs_env = example_env\<lparr>
     session_get :=
       (\<lambda>url. if url = ''https://thebanmappingproject.com/tombs/kv-1''
              then Response 200 (captioned_page ''Amduat, second hour, north wall.'')
              else Response 200 (captioned_page ''Imydwat, second hour, detail.'')),
     re_findall := (\<lambda>p s. [''second'']),
     tomb_name_of :=
       (\<lambda>soup url. if url = ''https://thebanmappingproject.com/tombs/kv-1'' then ''KV 1''
                   else ''KV 2'')\<rparr>"

section \<open>Substrings\<close>

lemma startswith_append: "startswith (p @ s) p"
  by (induction p) auto

lemma startswith_iff: "startswith s p \<longleftrightarrow> (\<exists>r. s = p @ r)"
  by (induction s p rule: startswith.induct) auto

lemma contains_iff: "contains s sub \<longleftrightarrow> (\<exists>a b. s = a @ sub @ b)"
proof (induction s)
  case Nil
  then show ?case by auto
next
  case (Cons c cs)
  show ?case
  proof
    assume "contains (c # cs) sub"
    then consider "startswith (c # cs) sub" | "contains cs sub" by auto
    then show "\<exists>a b. c # cs = a @ sub @ b"
    proof cases
      case 1
      then obtain r where "c # cs = sub @ r" unfolding startswith_iff ..
      then have "c # cs = [] @ sub @ r" by simp
      then show ?thesis by blast
    next
      case 2
      with Cons obtain a b where "cs = a @ sub @ b" by blast
      then have "c # cs = (c # a) @ sub @ b" by simp
      then show ?thesis by blast
    qed
  next
    assume "\<exists>a b. c # cs = a @ sub @ b"
    then obtain a b where ab: "c # cs = a @ sub @ b" by blast
    show "contains (c # cs) sub"
    proof (cases a)
      case Nil
      with ab have "startswith (c # cs) sub" unfolding startswith_iff by auto
      then show ?thesis by simp
    next
      case (Cons a0 a')
      with ab have "cs = a' @ sub @ b" by simp
      with Cons.IH have "contains cs sub" by blast
      then show ?thesis by simp
    qed
  qed
qed

lemma contains_appendL: "contains x w \<Longrightarrow> contains (x @ y) w"
  unfolding contains_iff by (metis append.assoc)

lemma contains_appendR: "contains y w \<Longrightarrow> contains (x @ y) w"
  unfolding contains_iff by (metis append.assoc)

lemma startswith_before_sep:
  "startswith (xs @ c # ys) w \<Longrightarrow> c \<notin> set w \<Longrightarrow> startswith xs w"
proof (induction xs arbitrary: w)
  case Nil
  then show ?case by (cases w) auto
next
  case (Cons x xs)
  then show ?case by (cases w) auto
qed

lemma contains_split_sep:
  "contains (xs @ c # ys) w \<Longrightarrow> c \<notin> set w \<Longrightarrow> contains xs w \<or> contains ys w"
proof (induction xs)
  case Nil
  then have "startswith (c # ys) w \<or> contains ys w" by simp
  then show ?case
  proof
    assume "startswith (c # ys) w"
    with Nil(2) have "w = []" by (cases w) auto
    then show ?thesis by simp
  qed simp
next
  case (Cons x xs)
  from Cons.prems(1) have "startswith ((x # xs) @ c # ys) w \<or> contains (xs @ c # ys) w"
    by simp
  then show ?case
  proof
    assume "startswith ((x # xs) @ c # ys) w"
    then have "startswith (x # xs) w" using Cons.prems(2) by (rule startswith_before_sep)
    then show ?thesis by simp
  next
    assume "contains (xs @ c # ys) w"
    with Cons show ?thesis by auto
  qed
qed

lemma lower_append: "lower (a @ b) = lower a @ lower b"
  by (simp add: lower_def)

lemma denylisted_iff:
  "denylisted s \<longleftrightarrow> (\<exists>w\<in>set denylist. \<exists>a b. lower s = a @ w @ b)"
  by (simp add: denylisted_def list_ex_iff contains_iff)

lemma denylisted_appendL: "denylisted a \<Longrightarrow> denylisted (a @ b)"
  by (auto simp: denylisted_def list_ex_iff lower_append intro: contains_appendL)

lemma denylisted_appendR: "denylisted b \<Longrightarrow> denylisted (a @ b)"
  by (auto simp: denylisted_def list_ex_iff lower_append intro: contains_appendR)

lemma denylisted_slash_split:
  assumes "denylisted (a @ CHR ''/'' # b)"
  shows "denylisted a \<or> denylisted b"
proof -
  have sl: "lower (a @ CHR ''/'' # b) = lower a @ CHR ''/'' # lower b"
    by (simp add: lower_def lower_char_def upper_letters_def lower_letters_def)
  from assms obtain w where w: "w \<in> set denylist" "contains (lower a @ CHR ''/'' # lower b) w"
    unfolding denylisted_def list_ex_iff sl by blast
  from w(1) have "CHR ''/'' \<notin> set w" by (auto simp: denylist_def)
  with w(2) have "contains (lower a) w \<or> contains (lower b) w" by (rule contains_split_sep)
  with w(1) show ?thesis unfolding denylisted_def list_ex_iff by blast
qed

section \<open>Filename sanitization\<close>

lemma double_underscore_iff:
  "double_underscore s \<longleftrightarrow>
     (\<exists>i. Suc i < length s \<and> s ! i = CHR ''_'' \<and> s ! Suc i = CHR ''_'')"
proof (induction s rule: double_underscore.induct)
  case (1 a b cs)
  show ?case
  proof
    assume "double_underscore (a # b # cs)"
    then consider "a = CHR ''_'' \<and> b = CHR ''_''" | "double_underscore (b # cs)" by auto
    then show "\<exists>i. Suc i < length (a # b # cs) \<and> (a # b # cs) ! i = CHR ''_''
                 \<and> (a # b # cs) ! Suc i = CHR ''_''"
    proof cases
      case 1
      then show ?thesis by (intro exI[of _ 0]) simp
    next
      case 2
      with "1.IH" obtain i where "Suc i < length (b # cs)" "(b # cs) ! i = CHR ''_''"
        "(b # cs) ! Suc i = CHR ''_''" by blast
      then show ?thesis by (intro exI[of _ "Suc i"]) simp
    qed
  next
    assume "\<exists>i. Suc i < length (a # b # cs) \<and> (a # b # cs) ! i = CHR ''_''
              \<and> (a # b # cs) ! Suc i = CHR ''_''"
    then obtain i where i: "Suc i < length (a # b # cs)" "(a # b # cs) ! i = CHR ''_''"
      "(a # b # cs) ! Suc i = CHR ''_''" by blast
    show "double_underscore (a # b # cs)"
    proof (cases i)
      case 0
      with i show ?thesis by simp
    next
      case (Suc j)
      with i have "Suc j < length (b # cs) \<and> (b # cs) ! j = CHR ''_''
                     \<and> (b # cs) ! Suc j = CHR ''_''" by simp
      with "1.IH" show ?thesis by auto
    qed
  qed
qed auto

lemma double_underscore_appendL: "double_underscore xs \<Longrightarrow> double_underscore (xs @ ys)"
  by (induction xs rule: double_underscore.induct) auto

lemma double_underscore_appendR: "double_underscore ys \<Longrightarrow> double_underscore (xs @ ys)"
proof (induction xs)
  case (Cons a xs)
  then show ?case by (cases "xs @ ys") auto
qed simp

lemma double_underscore_dropWhile:
  "double_underscore (dropWhile P s) \<Longrightarrow> double_underscore s"
  using double_underscore_appendR [of "dropWhile P s" "takeWhile P s"] by simp

lemma double_underscore_take: "double_underscore (take n s) \<Longrightarrow> double_underscore s"
  using double_underscore_appendL [of "take n s" "drop n s"] by simp

lemma strip_chars_prefix: "\<exists>zs. dropWhile P s = strip_chars P s @ zs"
proof -
  let ?d = "dropWhile P s"
  have "rev (dropWhile P (rev ?d)) @ rev (takeWhile P (rev ?d))
          = rev (takeWhile P (rev ?d) @ dropWhile P (rev ?d))"
    by (simp only: rev_append)
  also have "\<dots> = ?d" by simp
  finally have "?d = strip_chars P s @ rev (takeWhile P (rev ?d))"
    by (simp add: strip_chars_def)
  then show ?thesis ..
qed

lemma double_underscore_strip:
  assumes "double_underscore (strip_chars P s)"
  shows "double_underscore s"
proof -
  obtain zs where "dropWhile P s = strip_chars P s @ zs"
    using strip_chars_prefix by blast
  with assms have "double_underscore (dropWhile P s)"
    using double_underscore_appendL [of "strip_chars P s" zs] by simp
  then show ?thesis by (rule double_underscore_dropWhile)
qed

lemma double_underscore_slice: "double_underscore (slice_to n s) \<Longrightarrow> double_underscore s"
  by (auto simp: slice_to_def dest: double_underscore_take split: if_splits)

lemma set_sub_runs: "set (sub_runs P xs) \<subseteq> insert (CHR ''_'') (set xs)"
proof (induction P xs rule: sub_runs.induct)
  case (2 P c cs)
  have "set (dropWhile P cs) \<subseteq> set cs" by (auto dest: set_dropWhileD)
  with 2 show ?case by auto
qed simp

lemma sub_runs_removes: "\<not> P (CHR ''_'') \<Longrightarrow> c \<in> set (sub_runs P xs) \<Longrightarrow> \<not> P c"
  by (induction P xs rule: sub_runs.induct) (auto split: if_splits)

lemma sub_runs_head:
  "sub_runs (\<lambda>c. c = CHR ''_'') xs = y # ys \<Longrightarrow> y = CHR ''_''
     \<Longrightarrow> xs \<noteq> [] \<and> hd xs = CHR ''_''"
  by (cases xs) (auto split: if_splits)

lemma sub_runs_underscore_single: "\<not> double_underscore (sub_runs (\<lambda>c. c = CHR ''_'') xs)"
proof (induction "\<lambda>c. c = CHR ''_''" xs rule: sub_runs.induct)
  case (2 c cs)
  show ?case
  proof (cases "c = CHR ''_''")
    case True
    let ?r = "dropWhile (\<lambda>c. c = CHR ''_'') cs"
    have nd: "\<not> double_underscore (sub_runs (\<lambda>c. c = CHR ''_'') ?r)" using 2 True by simp
    have "\<not> double_underscore (CHR ''_'' # sub_runs (\<lambda>c. c = CHR ''_'') ?r)"
    proof (cases "sub_runs (\<lambda>c. c = CHR ''_'') ?r")
      case Nil
      then show ?thesis by simp
    next
      case (Cons y ys)
      have "y \<noteq> CHR ''_''"
      proof
        assume "y = CHR ''_''"
        with Cons have "?r \<noteq> [] \<and> hd ?r = CHR ''_''" by (rule sub_runs_head)
        then show False using hd_dropWhile [of "\<lambda>c. c = CHR ''_''" cs] by auto
      qed
      with nd Cons show ?thesis by simp
    qed
    with True show ?thesis by simp
  next
    case False
    with 2 have "\<not> double_underscore (sub_runs (\<lambda>c. c = CHR ''_'') cs)" by simp
    with False show ?thesis by (cases "sub_runs (\<lambda>c. c = CHR ''_'') cs") auto
  qed
qed simp

lemma sanitize_unnamed_clean:
  "c \<in> set ''unnamed'' \<Longrightarrow> c \<notin> set invalid_chars \<and> \<not> is_space c"
  by (auto simp: invalid_chars_def is_space_def)

lemma sanitize_core_chars:
  assumes "c \<in> set (strip_chars (\<lambda>c. c = CHR ''_'')
             (sub_runs (\<lambda>c. c = CHR ''_'') (sub_runs is_space (sub_invalid text))))"
  shows "c \<notin> set invalid_chars \<and> \<not> is_space c"
proof -
  let ?t1 = "sub_invalid text"
  let ?t2 = "sub_runs is_space ?t1"
  let ?t3 = "sub_runs (\<lambda>c. c = CHR ''_'') ?t2"
  have us: "\<not> is_space (CHR ''_'')" "CHR ''_'' \<notin> set invalid_chars"
    by (simp_all add: is_space_def invalid_chars_def)
  have "set (strip_chars (\<lambda>c. c = CHR ''_'') ?t3) \<subseteq> set ?t3"
    unfolding strip_chars_def by (auto dest!: set_dropWhileD)
  with assms have c3: "c \<in> set ?t3" by blast
  then have c2: "c = CHR ''_'' \<or> c \<in> set ?t2"
    using set_sub_runs [of "\<lambda>c. c = CHR ''_''" ?t2] by blast
  have sp: "\<not> is_space c"
  proof (cases "c = CHR ''_''")
    case True
    with us show ?thesis by simp
  next
    case False
    with c2 have "c \<in> set ?t2" by simp
    with us(1) show ?thesis by (rule sub_runs_removes)
  qed
  from c2 have "c = CHR ''_'' \<or> c \<in> set ?t1"
    using set_sub_runs [of is_space ?t1] by blast
  then have "c \<notin> set invalid_chars"
    using us(2) by (auto simp: sub_invalid_def split: if_splits)
  with sp show ?thesis by simp
qed

lemma sub_runs_all:
  assumes "\<forall>c\<in>set xs. P c"
  shows "set (sub_runs P xs) \<subseteq> {CHR ''_''}"
proof (cases xs)
  case (Cons a list)
  with assms have "P a" and d: "dropWhile P list = []" by simp_all
  with Cons show ?thesis by (simp del: dropWhile_eq_Nil_conv)
qed simp

lemma sanitize_all_invalid:
  assumes "\<forall>c\<in>set text. c \<in> set invalid_chars \<or> is_space c"
  shows "strip_chars (\<lambda>c. c = CHR ''_'')
           (sub_runs (\<lambda>c. c = CHR ''_'') (sub_runs is_space (sub_invalid text))) = []"
proof -
  let ?t1 = "sub_invalid text"
  let ?t2 = "sub_runs is_space ?t1"
  let ?t3 = "sub_runs (\<lambda>c. c = CHR ''_'') ?t2"
  from assms have "\<forall>c\<in>set ?t1. c = CHR ''_'' \<or> is_space c"
    by (auto simp: sub_invalid_def)
  moreover have "set ?t2 \<subseteq> insert (CHR ''_'') (set ?t1)" by (rule set_sub_runs)
  moreover have "\<And>c. c \<in> set ?t2 \<Longrightarrow> \<not> is_space c"
    by (rule sub_runs_removes [of is_space]) (simp_all add: is_space_def)
  ultimately have "\<forall>c\<in>set ?t2. c = CHR ''_''" by blast
  then have "set ?t3 \<subseteq> {CHR ''_''}" by (rule sub_runs_all)
  then have "\<forall>c\<in>set ?t3. c = CHR ''_''" by blast
  then have "dropWhile (\<lambda>c. c = CHR ''_'') ?t3 = []" by simp
  then show ?thesis by (simp add: strip_chars_def del: dropWhile_eq_Nil_conv)
qed

text \<open>
  Claim C6. For every input, \<open>sanitize_filename\<close> (with the default \<open>max_length\<close> of 100)
  returns a string with none of the characters \<^verbatim>\<open><>:"/\|?*\<close>, no whitespace, no two
  underscores in a row, and at most 100 characters; an input made only of such
  characters and whitespace gives \<open>unnamed\<close>.
\<close>

theorem sanitize_filename_safe:
  "(\<forall>c\<in>set (sanitize_filename text 100). c \<notin> set invalid_chars \<and> \<not> is_space c)
   \<and> (\<forall>i. Suc i < length (sanitize_filename text 100) \<longrightarrow>
          \<not> (sanitize_filename text 100 ! i = CHR ''_''
             \<and> sanitize_filename text 100 ! Suc i = CHR ''_''))
   \<and> length (sanitize_filename text 100) \<le> 100
   \<and> ((\<forall>c\<in>set text. c \<in> set invalid_chars \<or> is_space c)
        \<longrightarrow> sanitize_filename text 100 = ''unnamed'')"
proof -
  define t4 where "t4 = strip_chars (\<lambda>c. c = CHR ''_'')
    (sub_runs (\<lambda>c. c = CHR ''_'') (sub_runs is_space (sub_invalid text)))"
  define t5 where "t5 = (if int (length t4) > 100 then slice_to 100 t4 else t4)"
  have r: "sanitize_filename text 100 = (if t5 \<noteq> [] then t5 else ''unnamed'')"
    by (simp add: sanitize_filename_def t4_def t5_def Let_def)
  have t5_sub: "set t5 \<subseteq> set t4"
    by (auto simp: t5_def slice_to_def dest: in_set_takeD)
  have t4_clean: "\<And>c. c \<in> set t4 \<Longrightarrow> c \<notin> set invalid_chars \<and> \<not> is_space c"
    unfolding t4_def by (rule sanitize_core_chars)
  have A: "\<forall>c\<in>set (sanitize_filename text 100). c \<notin> set invalid_chars \<and> \<not> is_space c"
  proof
    fix c assume "c \<in> set (sanitize_filename text 100)"
    then consider "c \<in> set t5" | "c \<in> set ''unnamed''"
      unfolding r by (auto split: if_splits)
    then show "c \<notin> set invalid_chars \<and> \<not> is_space c"
    proof cases
      case 1
      with t5_sub t4_clean show ?thesis by blast
    next
      case 2
      then show ?thesis by (rule sanitize_unnamed_clean)
    qed
  qed
  have "\<not> double_underscore t4"
    unfolding t4_def
    using double_underscore_strip [of "\<lambda>c. c = CHR ''_''"] sub_runs_underscore_single
    by blast
  then have "\<not> double_underscore t5"
    unfolding t5_def using double_underscore_slice by auto
  moreover have "\<not> double_underscore ''unnamed''" by simp
  ultimately have "\<not> double_underscore (sanitize_filename text 100)" unfolding r by simp
  then have B: "\<forall>i. Suc i < length (sanitize_filename text 100) \<longrightarrow>
          \<not> (sanitize_filename text 100 ! i = CHR ''_''
             \<and> sanitize_filename text 100 ! Suc i = CHR ''_'')"
    unfolding double_underscore_iff by blast
  have "length t5 \<le> 100" by (auto simp: t5_def slice_to_def)
  then have C: "length (sanitize_filename text 100) \<le> 100" unfolding r by simp
  have D: "(\<forall>c\<in>set text. c \<in> set invalid_chars \<or> is_space c)
             \<longrightarrow> sanitize_filename text 100 = ''unnamed''"
  proof
    assume "\<forall>c\<in>set text. c \<in> set invalid_chars \<or> is_space c"
    then have "t4 = []" unfolding t4_def by (rule sanitize_all_invalid)
    then have "t5 = []" by (simp add: t5_def)
    then show "sanitize_filename text 100 = ''unnamed''" unfolding r by simp
  qed
  show ?thesis by (intro conjI A B C D)
qed

theorem sanitize_filename_safe_witness:
  "list_all (\<lambda>c. c \<in> set invalid_chars \<or> is_space c) ''<> ?''
   \<and> sanitize_filename ''<> ?'' 100 = ''unnamed''
   \<and> sanitize_filename ''a<b  c__d'' 100 = ''a_b_c_d''
   \<and> list_all (\<lambda>c. c \<notin> set invalid_chars \<and> \<not> is_space c)
        (sanitize_filename ''a<b  c__d'' 100)
   \<and> length (sanitize_filename ''a<b  c__d'' 100) \<le> 100"
proof -
  have h: "\<forall>c\<in>set ''<> ?''. c \<in> set invalid_chars \<or> is_space c"
    by (simp add: invalid_chars_def is_space_def)
  have e: "sanitize_filename ''a<b  c__d'' 100 = ''a_b_c_d''"
    by (simp add: sanitize_filename_def sub_invalid_def invalid_chars_def is_space_def
          strip_chars_def slice_to_def)
  from h sanitize_filename_safe [of "''<> ?''"]
  have u: "sanitize_filename ''<> ?'' 100 = ''unnamed''" by blast
  from sanitize_filename_safe [of "''a<b  c__d''"]
  have c: "\<forall>c\<in>set (sanitize_filename ''a<b  c__d'' 100). c \<notin> set invalid_chars \<and> \<not> is_space c"
    and l: "length (sanitize_filename ''a<b  c__d'' 100) \<le> 100"
    by blast+
  from h have h': "list_all (\<lambda>c. c \<in> set invalid_chars \<or> is_space c) ''<> ?''"
    unfolding list_all_iff .
  from c have c': "list_all (\<lambda>c. c \<notin> set invalid_chars \<and> \<not> is_space c)
        (sanitize_filename ''a<b  c__d'' 100)"
    unfolding list_all_iff .
  show ?thesis by (intro conjI h' u e c' l)
qed

section \<open>Variant paths\<close>

lemma takeWhile_upto_sep: "c \<notin> set xs \<Longrightarrow> takeWhile (\<lambda>x. x \<noteq> c) (xs @ c # ys) = xs"
  by (induction xs) auto

lemma dropWhile_upto_sep: "c \<notin> set xs \<Longrightarrow> dropWhile (\<lambda>x. x \<noteq> c) (xs @ c # ys) = c # ys"
  by (induction xs) auto

lemma styles_match_variant:
  assumes "variant \<noteq> []" and "CHR ''/'' \<notin> set variant"
    and "rest \<noteq> []" and "CHR 0x0A \<notin> set rest"
  shows "styles_match (''/styles/'' @ variant @ ''/public/'' @ rest) = Some rest"
proof -
  let ?r = "variant @ ''/public/'' @ rest"
  have tw: "takeWhile (\<lambda>c. c \<noteq> CHR ''/'') ?r = variant"
    using takeWhile_upto_sep [OF assms(2), of "''public/'' @ rest"] by simp
  have dw: "dropWhile (\<lambda>c. c \<noteq> CHR ''/'') ?r = ''/public/'' @ rest"
    using dropWhile_upto_sep [OF assms(2), of "''public/'' @ rest"] by simp
  have g: "takeWhile (\<lambda>c. c \<noteq> CHR 0x0A) rest = rest"
    using assms(4) by (auto simp: takeWhile_eq_all_conv)
  have d8: "drop 8 (''/styles/'' @ ?r) = ?r" by simp
  have sw: "startswith (''/styles/'' @ ?r) ''/styles/''" by simp
  have sp: "startswith (''/public/'' @ rest) ''/public/''" by simp
  have d8': "drop 8 (''/public/'' @ rest) = rest" by simp
  show ?thesis
    unfolding styles_match_def Let_def
    by (simp only: sw d8 tw dw sp d8' g assms(1) assms(3) if_True simp_thms)
qed

lemma normalize_src_variant:
  assumes "variant \<noteq> []" and "CHR ''/'' \<notin> set variant"
    and "rest \<noteq> []" and "CHR 0x0A \<notin> set rest"
  shows "normalize_src (''/styles/'' @ variant @ ''/public/'' @ rest)
           = ''/sites/default/files/'' @ rest"
proof -
  let ?s = "''/styles/'' @ variant @ ''/public/'' @ rest"
  have m: "styles_match ?s = Some rest" using assms by (rule styles_match_variant)
  obtain c cs where s: "?s = c # cs" by simp
  have "styles_search ?s = Some rest"
    unfolding s using m [unfolded s] by simp
  moreover have "contains ?s ''/styles/''" by simp
  ultimately show ?thesis by (simp only: normalize_src_def if_True option.case)
qed

text \<open>
  Claim C7, amended. A source \<^verbatim>\<open>/styles/<variant>/public/<rest>\<close>, where the variant is one
  non-empty path segment and the rest is not empty and has no line feed, is rewritten
  to \<^verbatim>\<open>/sites/default/files/<rest>\<close> before it is resolved; so
  \<^verbatim>\<open>/styles/thumb/public/foo/bar.jpg\<close> and \<^verbatim>\<open>/sites/default/files/foo/bar.jpg\<close>
  are resolved to the same absolute URL, whatever \<open>urljoin\<close> computes.
\<close>

theorem variant_path_rewritten:
  assumes "variant \<noteq> []" and "CHR ''/'' \<notin> set variant"
    and "rest \<noteq> []" and "CHR 0x0A \<notin> set rest"
  shows "normalize_src (''/styles/'' @ variant @ ''/public/'' @ rest)
           = ''/sites/default/files/'' @ rest
         \<and> urljoin e base_url (normalize_src (''/styles/'' @ variant @ ''/public/'' @ rest))
           = urljoin e base_url (''/sites/default/files/'' @ rest)
         \<and> urljoin e base_url (normalize_src ''/styles/thumb/public/foo/bar.jpg'')
           = urljoin e base_url (normalize_src ''/sites/default/files/foo/bar.jpg'')"
proof -
  have a: "normalize_src (''/styles/'' @ variant @ ''/public/'' @ rest)
             = ''/sites/default/files/'' @ rest"
    using assms by (rule normalize_src_variant)
  have "normalize_src (''/styles/'' @ ''thumb'' @ ''/public/'' @ ''foo/bar.jpg'')
          = ''/sites/default/files/'' @ ''foo/bar.jpg''"
    by (rule normalize_src_variant) simp_all
  then have b: "normalize_src ''/styles/thumb/public/foo/bar.jpg''
                  = ''/sites/default/files/foo/bar.jpg''" by simp
  have c: "normalize_src ''/sites/default/files/foo/bar.jpg''
             = ''/sites/default/files/foo/bar.jpg''"
    by (simp add: normalize_src_def)
  show ?thesis by (simp only: a b c simp_thms)
qed

theorem variant_path_rewritten_witness:
  "normalize_src ''/styles/large/public/kv9/wall.png'' = ''/sites/default/files/kv9/wall.png''
   \<and> normalize_src ''/styles/thumb/public/foo/bar.jpg'' = ''/sites/default/files/foo/bar.jpg''
   \<and> normalize_src ''/sites/default/files/foo/bar.jpg'' = ''/sites/default/files/foo/bar.jpg''"
proof -
  have "normalize_src (''/styles/'' @ ''large'' @ ''/public/'' @ ''kv9/wall.png'')
          = ''/sites/default/files/'' @ ''kv9/wall.png''"
    by (rule variant_path_rewritten [THEN conjunct1]) simp_all
  then have "normalize_src ''/styles/large/public/kv9/wall.png''
               = ''/sites/default/files/kv9/wall.png''" by simp
  moreover have "normalize_src ''/styles/thumb/public/foo/bar.jpg''
                   = ''/sites/default/files/foo/bar.jpg''"
    by (simp add: normalize_src_def styles_match_def)
  moreover have "normalize_src ''/sites/default/files/foo/bar.jpg''
                   = ''/sites/default/files/foo/bar.jpg''"
    by (simp add: normalize_src_def)
  ultimately show ?thesis by (intro conjI)
qed

text \<open>The rewrite as first stated, for every variant and every rest, fails: \<^verbatim>\<open>.+\<close>
  stops at a line feed, so the rewritten source loses what follows it; an empty rest or
  a variant of two segments is not matched, and the source stays as it is.\<close>

theorem variant_path_line_feed_counterexample:
  "normalize_src (''/styles/thumb/public/foo'' @ [CHR 0x0A] @ ''bar.jpg'')
     = ''/sites/default/files/foo''
   \<and> normalize_src (''/styles/thumb/public/foo'' @ [CHR 0x0A] @ ''bar.jpg'')
     \<noteq> ''/sites/default/files/foo'' @ [CHR 0x0A] @ ''bar.jpg''
   \<and> normalize_src ''/styles/thumb/public/'' = ''/styles/thumb/public/''
   \<and> normalize_src ''/styles/a/b/public/x.jpg'' = ''/styles/a/b/public/x.jpg''"
  by (simp add: normalize_src_def styles_match_def)

section \<open>The denylist\<close>

lemma process_image_denylisted:
  assumes "py_or (get_attr img ''src'') (get_attr img ''data-src'') = Some img_src"
    and "denylisted img_src"
  shows "process_image e cfg tomb_name img ibs = Inr ibs"
  using assms by (simp add: process_image_def)

lemma process_image_amduat_denylisted:
  assumes "py_or (get_attr img ''src'') (get_attr img ''data-src'') = Some img_src"
    and "denylisted img_src"
  shows "process_image_amduat e img hrs = Inr hrs"
  using assms by (simp add: process_image_amduat_def)

lemma image_loop_skip:
  assumes "\<And>ibs. process_image e cfg tomb_name img ibs = Inr ibs"
  shows "image_loop e cfg tomb_name (pre @ img # post) ibs
           = image_loop e cfg tomb_name (pre @ post) ibs"
proof (induction pre arbitrary: ibs)
  case Nil
  show ?case by (simp add: assms)
next
  case (Cons x pre)
  show ?case by (simp add: Cons.IH split: sum.splits)
qed

lemma image_loop_amduat_skip:
  assumes "\<And>hrs. process_image_amduat e img hrs = Inr hrs"
  shows "image_loop_amduat e (pre @ img # post) hrs = image_loop_amduat e (pre @ post) hrs"
proof (induction pre arbitrary: hrs)
  case Nil
  show ?case by (simp add: assms)
next
  case (Cons x pre)
  show ?case by (simp add: Cons.IH split: sum.splits)
qed

lemma page_images_picture_page:
  "page_images (picture_page attrs) =
     picture attrs #
     (case map_of attrs ''data-src'' of
        None \<Rightarrow> []
      | Some src \<Rightarrow> if src \<noteq> [] then [Dict [(''src'', src)]] else [])"
  by (simp add: page_images_def find_all_def picture_page_def picture_def split: option.splits)

text \<open>
  Claim C3. An image whose source has \<open>logo\<close>, \<open>icon\<close>, \<open>compass\<close> or \<open>hieroglyph\<close> in
  it, in any case, is put into no section, whatever its context: its pass of the loop
  leaves the sections as they are, and the page gives the same result as the page
  without it. This holds in both scripts.
\<close>

theorem denylisted_source_never_classified:
  assumes "py_or (get_attr img ''src'') (get_attr img ''data-src'') = Some img_src"
    and "denylisted img_src"
  shows "process_image e cfg tomb_name img ibs = Inr ibs
       \<and> image_loop e cfg tomb_name (pre @ img # post) ibs
           = image_loop e cfg tomb_name (pre @ post) ibs
       \<and> process_image_amduat e img hrs = Inr hrs
       \<and> image_loop_amduat e (pre @ img # post) hrs = image_loop_amduat e (pre @ post) hrs"
proof -
  have a: "\<And>ibs. process_image e cfg tomb_name img ibs = Inr ibs"
    using assms by (rule process_image_denylisted)
  have b: "\<And>hrs. process_image_amduat e img hrs = Inr hrs"
    using assms by (rule process_image_amduat_denylisted)
  show ?thesis
    using a b image_loop_skip [of e cfg tomb_name img pre post ibs, OF a]
      image_loop_amduat_skip [of e img pre post hrs, OF b]
    by simp
qed

theorem denylisted_source_never_classified_witness:
  "denylisted ''/images/compass-icon.png''
   \<and> image_loop third_hour_env amduat_config ''KV 9''
         (page_images (picture_page
            [(''src'', ''/images/compass-icon.png''), (''alt'', ''Amduat, third hour'')]))
         (empty_buckets amduat_config)
       = Inr (empty_buckets amduat_config)
   \<and> image_loop third_hour_env amduat_config ''KV 9''
         (page_images (picture_page
            [(''src'', ''/images/wall.png''), (''alt'', ''Amduat, third hour'')]))
         (empty_buckets amduat_config)
       = Inr [(1, []), (2, []),
              (3, [(''https://thebanmappingproject.com/images/wall.png'',
                    ''Amduat, third hour'', ''KV 9'')]),
              (4, []), (5, []), (6, []), (7, []), (8, []), (9, []), (10, []), (11, []),
              (12, [])]"
proof -
  let ?attrs = "[(''src'', ''/images/compass-icon.png''), (''alt'', ''Amduat, third hour'')]"
  have d: "denylisted ''/images/compass-icon.png''" by code_simp
  have s: "py_or (get_attr (picture ?attrs) ''src'') (get_attr (picture ?attrs) ''data-src'')
             = Some ''/images/compass-icon.png''"
    by (simp add: picture_def get_attr_def py_or_def)
  have p: "page_images (picture_page ?attrs) = [] @ picture ?attrs # []"
    by (simp add: page_images_picture_page)
  have "image_loop third_hour_env amduat_config ''KV 9'' ([] @ picture ?attrs # [])
          (empty_buckets amduat_config)
        = image_loop third_hour_env amduat_config ''KV 9'' ([] @ [])
          (empty_buckets amduat_config)"
    using denylisted_source_never_classified [OF s d] by blast
  then have a: "image_loop third_hour_env amduat_config ''KV 9''
                  (page_images (picture_page ?attrs)) (empty_buckets amduat_config)
                = Inr (empty_buckets amduat_config)"
    unfolding p by simp
  have b: "image_loop third_hour_env amduat_config ''KV 9''
         (page_images (picture_page
            [(''src'', ''/images/wall.png''), (''alt'', ''Amduat, third hour'')]))
         (empty_buckets amduat_config)
       = Inr [(1, []), (2, []),
              (3, [(''https://thebanmappingproject.com/images/wall.png'',
                    ''Amduat, third hour'', ''KV 9'')]),
              (4, []), (5, []), (6, []), (7, []), (8, []), (9, []), (10, []), (11, []),
              (12, [])]"
    by code_simp
  show ?thesis by (intro conjI d a b)
qed

section \<open>The denylist reads the raw source\<close>

lemma not_denylisted_canonical:
  assumes "\<not> denylisted rest"
  shows "\<not> denylisted (''/sites/default/files/'' @ rest)"
    and "\<not> denylisted (base_url @ ''/sites/default/files/'' @ rest)"
proof -
  have n1: "\<not> denylisted ''/sites/default/files''" by code_simp
  have n2: "\<not> denylisted ''https://thebanmappingproject.com/sites/default/files''"
    by code_simp
  have e1: "''/sites/default/files/'' @ rest = ''/sites/default/files'' @ CHR ''/'' # rest"
    by simp
  have e2: "base_url @ ''/sites/default/files/'' @ rest
              = ''https://thebanmappingproject.com/sites/default/files'' @ CHR ''/'' # rest"
    by (simp add: base_url_def)
  show "\<not> denylisted (''/sites/default/files/'' @ rest)"
    unfolding e1 using denylisted_slash_split n1 assms by blast
  show "\<not> denylisted (base_url @ ''/sites/default/files/'' @ rest)"
    unfolding e2 using denylisted_slash_split n2 assms by blast
qed

text \<open>
  Claim C10. The denylist is tested on the source as written, before the variant path
  is rewritten: an image whose source \<^verbatim>\<open>/styles/<variant>/public/<rest>\<close> has a
  denylisted word in its variant is rejected, its pass of the loop returning the
  sections unchanged in both scripts, so that the source is never rewritten nor
  resolved. This is so even though, when the rest has no denylisted word (the variant
  being one segment, the rest not empty and without a line feed), the rewritten source
  and the absolute URL made of it (the base followed by the path, as \<open>urljoin\<close> gives
  for such a path) have no denylisted word.
\<close>

theorem denylist_reads_raw_source:
  assumes "raw = ''/styles/'' @ variant @ ''/public/'' @ rest"
    and "denylisted variant"
    and "py_or (get_attr img ''src'') (get_attr img ''data-src'') = Some raw"
  shows "denylisted raw
       \<and> process_image e cfg tomb_name img ibs = Inr ibs
       \<and> process_image_amduat e img hrs = Inr hrs
       \<and> (variant \<noteq> [] \<and> CHR ''/'' \<notin> set variant \<and> rest \<noteq> [] \<and> CHR 0x0A \<notin> set rest
            \<and> \<not> denylisted rest
            \<and> urljoin e base_url (''/sites/default/files/'' @ rest)
                 = base_url @ ''/sites/default/files/'' @ rest
          \<longrightarrow> normalize_src raw = ''/sites/default/files/'' @ rest
              \<and> \<not> denylisted (normalize_src raw)
              \<and> \<not> denylisted (urljoin e base_url (normalize_src raw)))"
proof -
  have "denylisted (variant @ ''/public/'' @ rest)"
    using assms(2) by (rule denylisted_appendL)
  then have d: "denylisted raw"
    unfolding assms(1) by (rule denylisted_appendR)
  have p1: "process_image e cfg tomb_name img ibs = Inr ibs"
    using assms(3) d by (rule process_image_denylisted)
  have p2: "process_image_amduat e img hrs = Inr hrs"
    using assms(3) d by (rule process_image_amduat_denylisted)
  have c: "normalize_src raw = ''/sites/default/files/'' @ rest
              \<and> \<not> denylisted (normalize_src raw)
              \<and> \<not> denylisted (urljoin e base_url (normalize_src raw))"
    if form: "variant \<noteq> []" "CHR ''/'' \<notin> set variant" "rest \<noteq> []" "CHR 0x0A \<notin> set rest"
      and clean: "\<not> denylisted rest"
      and u: "urljoin e base_url (''/sites/default/files/'' @ rest)
                = base_url @ ''/sites/default/files/'' @ rest"
  proof -
    have n: "normalize_src raw = ''/sites/default/files/'' @ rest"
      unfolding assms(1) using form by (rule normalize_src_variant)
    have c1: "\<not> denylisted (normalize_src raw)"
      unfolding n using clean by (rule not_denylisted_canonical)
    have c2: "\<not> denylisted (urljoin e base_url (normalize_src raw))"
      unfolding n u using clean by (rule not_denylisted_canonical)
    show ?thesis by (intro conjI n c1 c2)
  qed
  show ?thesis using d p1 p2 c by blast
qed

theorem denylist_reads_raw_source_witness:
  "denylisted ''/styles/icon/public/foo.jpg''
   \<and> normalize_src ''/styles/icon/public/foo.jpg'' = ''/sites/default/files/foo.jpg''
   \<and> urljoin third_hour_env base_url (normalize_src ''/styles/icon/public/foo.jpg'')
       = ''https://thebanmappingproject.com/sites/default/files/foo.jpg''
   \<and> \<not> denylisted (urljoin third_hour_env base_url (normalize_src ''/styles/icon/public/foo.jpg''))
   \<and> process_image third_hour_env amduat_config ''KV 9''
         (picture [(''src'', ''/styles/icon/public/foo.jpg''), (''alt'', ''Amduat, third hour'')])
         (empty_buckets amduat_config)
       = Inr (empty_buckets amduat_config)"
proof -
  let ?img = "picture [(''src'', ''/styles/icon/public/foo.jpg''), (''alt'', ''Amduat, third hour'')]"
  let ?raw = "''/styles/icon/public/foo.jpg''"
  have h1: "?raw = ''/styles/'' @ ''icon'' @ ''/public/'' @ ''foo.jpg''"
    by simp
  have h2: "denylisted ''icon''" by code_simp
  have h3: "py_or (get_attr ?img ''src'') (get_attr ?img ''data-src'') = Some ?raw"
    by (simp add: picture_def get_attr_def py_or_def)
  have clean: "\<not> denylisted ''foo.jpg''" by code_simp
  have u: "urljoin third_hour_env base_url (''/sites/default/files/'' @ ''foo.jpg'')
              = base_url @ ''/sites/default/files/'' @ ''foo.jpg''"
    by (simp add: third_hour_env_def example_env_def)
  have form: "''icon'' \<noteq> [] \<and> CHR ''/'' \<notin> set ''icon'' \<and> ''foo.jpg'' \<noteq> []
                \<and> CHR 0x0A \<notin> set ''foo.jpg''"
    by simp
  note inst = denylist_reads_raw_source [OF h1 h2 h3,
      of third_hour_env amduat_config "''KV 9''" "empty_buckets amduat_config" "[]"]
  from inst have d: "denylisted ?raw" by blast
  from inst have p: "process_image third_hour_env amduat_config ''KV 9'' ?img
      (empty_buckets amduat_config) = Inr (empty_buckets amduat_config)" by blast
  from inst form clean u
  have n: "normalize_src ?raw = ''/sites/default/files/'' @ ''foo.jpg''"
    and c: "\<not> denylisted (urljoin third_hour_env base_url (normalize_src ?raw))"
    by blast+
  from n have n': "normalize_src ?raw = ''/sites/default/files/foo.jpg''" by simp
  have j: "urljoin third_hour_env base_url (normalize_src ?raw)
             = ''https://thebanmappingproject.com/sites/default/files/foo.jpg''"
    unfolding n' by (simp add: third_hour_env_def example_env_def base_url_def)
  show ?thesis by (intro conjI d n' j c p)
qed

section \<open>The order of the patterns\<close>

lemma first_hit_find:
  "first_hit m xs =
     (case find (\<lambda>x. map_of m (lower x) \<noteq> None) xs of
        None \<Rightarrow> None
      | Some x \<Rightarrow> map_of m (lower x))"
  by (induction xs) (auto split: option.splits)

lemma first_hit_None_iff:
  "first_hit m xs \<noteq> None \<longleftrightarrow> list_ex (\<lambda>x. map_of m (lower x) \<noteq> None) xs"
  by (induction xs) (auto split: option.splits)

lemma first_hit_resolves:
  "first_hit m (re_findall e p ctx) \<noteq> None \<longleftrightarrow> resolves e m ctx p"
  unfolding resolves_def by (rule first_hit_None_iff)

lemma first_hit_range: "first_hit m xs = Some v \<Longrightarrow> v \<in> snd ` set m"
proof (induction xs)
  case (Cons x xs)
  then show ?case
    by (auto split: option.splits dest!: map_of_SomeD intro: rev_image_eqI)
qed simp

lemma pattern_loop_find:
  assumes "\<forall>v\<in>snd ` set m. v \<noteq> 0"
  shows "pattern_loop matches m None ps =
           (case find (\<lambda>p. first_hit m (matches p) \<noteq> None) ps of
              None \<Rightarrow> None
            | Some p \<Rightarrow> first_hit m (matches p))"
proof (induction ps)
  case Nil
  show ?case by simp
next
  case (Cons p ps)
  show ?case
  proof (cases "first_hit m (matches p)")
    case None
    with Cons show ?thesis by (simp add: truthy_def)
  next
    case (Some v)
    then have "v \<in> snd ` set m" by (rule first_hit_range)
    with assms have "v \<noteq> 0" by blast
    with Some show ?thesis by (simp add: truthy_def)
  qed
qed

lemma pattern_loop_priority:
  assumes "\<forall>v\<in>snd ` set m. v \<noteq> 0"
  shows "pattern_loop (\<lambda>p. re_findall e p ctx) m None ps = section_by_priority e m ps ctx"
proof -
  have eq: "(\<lambda>p. first_hit m (re_findall e p ctx) \<noteq> None) = resolves e m ctx"
    by (rule ext) (rule first_hit_resolves)
  show ?thesis
    unfolding pattern_loop_find [OF assms] section_by_priority_def eq
    by (simp add: first_hit_find split: option.splits)
qed

lemma pattern_loop_later_unread:
  assumes "\<forall>v\<in>snd ` set m. v \<noteq> 0"
    and "find (\<lambda>p. first_hit m (f p) \<noteq> None) ps = Some p"
    and "\<forall>q\<in>set (takeWhile (\<lambda>q. first_hit m (f q) = None) ps). g q = f q"
    and "g p = f p"
  shows "pattern_loop g m sf ps = pattern_loop f m sf ps"
  using assms
proof (induction ps arbitrary: sf)
  case Nil
  then show ?case by simp
next
  case (Cons q ps)
  show ?case
  proof (cases "first_hit m (f q)")
    case None
    with Cons.prems have gq: "g q = f q" and f: "find (\<lambda>p. first_hit m (f p) \<noteq> None) ps = Some p"
      and t: "\<forall>q\<in>set (takeWhile (\<lambda>q. first_hit m (f q) = None) ps). g q = f q"
      by simp_all
    have "\<And>sf. pattern_loop g m sf ps = pattern_loop f m sf ps"
      using Cons.prems(1) f t Cons.prems(4) by (rule Cons.IH)
    with None gq show ?thesis by simp
  next
    case (Some v)
    with Cons.prems(2) have "q = p" by simp
    with Cons.prems(4) have gq: "g q = f q" by simp
    from Some have "v \<in> snd ` set m" by (rule first_hit_range)
    with Cons.prems(1) have "v \<noteq> 0" by blast
    with Some gq show ?thesis by (simp add: truthy_def)
  qed
qed

lemma configured_values_nonzero:
  assumes "(tt, cfg) \<in> set FUNERARY_TEXT_CONFIGS"
  shows "\<forall>v\<in>snd ` set (section_mapping cfg). v \<noteq> 0"
proof -
  from assms have "cfg = amduat_config \<or> cfg = caverns_config"
    by (auto simp: FUNERARY_TEXT_CONFIGS_def)
  then show ?thesis
    by (auto simp: amduat_config_def caverns_config_def)
qed

lemma amduat_tables:
  "amduat_patterns = patterns amduat_config" "hour_mapping = section_mapping amduat_config"
  by (simp_all add: amduat_patterns_def hour_mapping_def amduat_config_def)

text \<open>
  Claim C1. For every context string and every configured text type, the section the
  classifier finds is the one of the first pattern, in the configured order, with a
  captured group whose lowercased value is a key of the mapping (the number of its
  first such group), and none when no pattern has one. The patterns after that one
  are not consulted: whatever they would match, the result is the same. The loop of
  the Amduat script computes the same with its own tables.
\<close>

theorem first_resolving_pattern_wins:
  assumes "(tt, cfg) \<in> set FUNERARY_TEXT_CONFIGS"
  shows "find_section e cfg ctx
           = section_by_priority e (section_mapping cfg) (patterns cfg) ctx
       \<and> find_hour e ctx = section_by_priority e hour_mapping amduat_patterns ctx
       \<and> (find (resolves e (section_mapping cfg) ctx) (patterns cfg) = Some p
            \<longrightarrow> (\<forall>q\<in>set (takeWhile (\<lambda>q. \<not> resolves e (section_mapping cfg) ctx q) (patterns cfg)).
                   re_findall e' q ctx = re_findall e q ctx)
            \<longrightarrow> re_findall e' p ctx = re_findall e p ctx
            \<longrightarrow> find_section e' cfg ctx = find_section e cfg ctx)"
proof -
  let ?m = "section_mapping cfg"
  have nz: "\<forall>v\<in>snd ` set ?m. v \<noteq> 0"
    using assms by (rule configured_values_nonzero)
  have a: "find_section e cfg ctx = section_by_priority e ?m (patterns cfg) ctx"
    unfolding find_section_def using nz by (rule pattern_loop_priority)
  have "(''amduat'', amduat_config) \<in> set FUNERARY_TEXT_CONFIGS"
    by (simp add: FUNERARY_TEXT_CONFIGS_def)
  then have "\<forall>v\<in>snd ` set hour_mapping. v \<noteq> 0"
    unfolding amduat_tables by (rule configured_values_nonzero)
  then have b: "find_hour e ctx = section_by_priority e hour_mapping amduat_patterns ctx"
    unfolding find_hour_def by (rule pattern_loop_priority)
  have c: "find_section e' cfg ctx = find_section e cfg ctx"
    if f: "find (resolves e ?m ctx) (patterns cfg) = Some p"
      and t: "\<forall>q\<in>set (takeWhile (\<lambda>q. \<not> resolves e ?m ctx q) (patterns cfg)).
                re_findall e' q ctx = re_findall e q ctx"
      and g: "re_findall e' p ctx = re_findall e p ctx"
  proof -
    have r: "\<And>q. (first_hit ?m (re_findall e q ctx) = None) = (\<not> resolves e ?m ctx q)"
      using first_hit_resolves [of ?m e _ ctx] by blast
    have r': "(\<lambda>q. first_hit ?m (re_findall e q ctx) \<noteq> None) = resolves e ?m ctx"
      by (rule ext) (rule first_hit_resolves)
    show ?thesis
      unfolding find_section_def
      by (rule pattern_loop_later_unread [where p = p]) (simp_all add: nz r r' f t g)
  qed
  show ?thesis using a b c by blast
qed

theorem first_resolving_pattern_wins_witness:
  "find_section priority_env amduat_config ''imydwat amduat the fourth sixth hour 5'' = Some 4
   \<and> section_by_priority priority_env (section_mapping amduat_config) (patterns amduat_config)
       ''imydwat amduat the fourth sixth hour 5'' = Some 4
   \<and> find (resolves priority_env (section_mapping amduat_config)
             ''imydwat amduat the fourth sixth hour 5'') (patterns amduat_config)
       = Some (patterns amduat_config ! 1)
   \<and> find_section priority_env' amduat_config ''imydwat amduat the fourth sixth hour 5'' = Some 4"
proof -
  let ?ctx = "''imydwat amduat the fourth sixth hour 5''"
  let ?m = "section_mapping amduat_config"
  have cfg: "(''amduat'', amduat_config) \<in> set FUNERARY_TEXT_CONFIGS"
    by (simp add: FUNERARY_TEXT_CONFIGS_def)
  note inst = first_resolving_pattern_wins [OF cfg, of priority_env ?ctx "patterns amduat_config ! 1" priority_env']
  have s: "section_by_priority priority_env ?m (patterns amduat_config) ?ctx = Some 4"
    by code_simp
  have f: "find (resolves priority_env ?m ?ctx) (patterns amduat_config)
             = Some (patterns amduat_config ! 1)"
    by code_simp
  have tw: "takeWhile (\<lambda>q. \<not> resolves priority_env ?m ?ctx q) (patterns amduat_config)
              = [patterns amduat_config ! 0]"
    by code_simp
  have t: "\<forall>q\<in>set (takeWhile (\<lambda>q. \<not> resolves priority_env ?m ?ctx q) (patterns amduat_config)).
             re_findall priority_env' q ?ctx = re_findall priority_env q ?ctx"
    unfolding tw by (simp add: priority_env_def priority_env'_def example_env_def)
  have g: "re_findall priority_env' (patterns amduat_config ! 1) ?ctx
             = re_findall priority_env (patterns amduat_config ! 1) ?ctx"
    by (simp add: priority_env_def priority_env'_def example_env_def)
  from inst s have a: "find_section priority_env amduat_config ?ctx = Some 4" by simp
  from inst f t g have "find_section priority_env' amduat_config ?ctx
                         = find_section priority_env amduat_config ?ctx" by blast
  with a have b: "find_section priority_env' amduat_config ?ctx = Some 4" by simp
  show ?thesis by (intro conjI a s f b)
qed

section \<open>Section numbers of the result\<close>

lemma update_present_keys: "map_of al k = Some v \<Longrightarrow> map fst (AList.update k v' al) = map fst al"
  by (induction al) (auto split: if_splits)

lemma process_image_keys:
  assumes "process_image e cfg tomb_name img ibs = Inr ibs'"
  shows "map fst ibs' = map fst ibs"
  using assms unfolding process_image_def Let_def
  by (auto split: option.splits if_splits element.splits simp: update_present_keys)

lemma image_loop_keys:
  "image_loop e cfg tomb_name imgs ibs = Inr ibs' \<Longrightarrow> map fst ibs' = map fst ibs"
proof (induction imgs arbitrary: ibs)
  case Nil
  then show ?case by simp
next
  case (Cons img imgs)
  then obtain ibs1 where s: "process_image e cfg tomb_name img ibs = Inr ibs1"
    and l: "image_loop e cfg tomb_name imgs ibs1 = Inr ibs'"
    by (auto split: sum.splits)
  from l have "map fst ibs' = map fst ibs1" by (rule Cons.IH)
  with process_image_keys [OF s] show ?case by simp
qed

lemma empty_buckets_keys: "map fst (empty_buckets cfg) = map fst (sections cfg)"
  by (simp add: empty_buckets_def case_prod_unfold)

lemma extract_keys:
  assumes "extract_funerary_text_images e cfg tomb_url = Inr r"
  shows "map fst r = map fst (sections cfg)"
proof (cases "session_get e tomb_url")
  case ConnectionError
  with assms show ?thesis by (simp add: extract_funerary_text_images_def)
next
  case (Response status_code soup)
  show ?thesis
  proof (cases "status_code = 200")
    case True
    with assms Response
    have "image_loop e cfg (tomb_name_of e soup tomb_url) (page_images soup) (empty_buckets cfg)
            = Inr r"
      by (simp add: extract_funerary_text_images_def)
    then have "map fst r = map fst (empty_buckets cfg :: buckets)" by (rule image_loop_keys)
    then show ?thesis by (simp add: empty_buckets_keys)
  next
    case False
    with assms Response have "r = empty_buckets cfg"
      by (simp add: extract_funerary_text_images_def)
    then show ?thesis by (simp add: empty_buckets_keys)
  qed
qed

lemma process_image_no_KeyError:
  assumes "map fst ibs = map fst (sections cfg)"
  shows "process_image e cfg tomb_name img ibs \<noteq> Inl KeyError"
proof -
  have "map_of ibs s \<noteq> None" if "map_of (sections cfg) s \<noteq> None" for s
  proof -
    from that have "s \<in> fst ` set (sections cfg)" by (simp add: map_of_eq_None_iff)
    then have "s \<in> set (map fst ibs)" unfolding assms by simp
    then show ?thesis by (simp add: map_of_eq_None_iff)
  qed
  note present = this
  show ?thesis
  proof
    assume "process_image e cfg tomb_name img ibs = Inl KeyError"
    then obtain s where "map_of (sections cfg) s \<noteq> None" and "map_of ibs s = None"
      unfolding process_image_def Let_def
      by (auto split: option.splits if_splits element.splits)
    with present show False by blast
  qed
qed

lemma image_loop_no_KeyError:
  "map fst ibs = map fst (sections cfg) \<Longrightarrow> image_loop e cfg tomb_name imgs ibs \<noteq> Inl KeyError"
proof (induction imgs arbitrary: ibs)
  case Nil
  then show ?case by simp
next
  case (Cons img imgs)
  show ?case
  proof (cases "process_image e cfg tomb_name img ibs")
    case (Inl err)
    with process_image_no_KeyError [OF Cons.prems, of e tomb_name img] show ?thesis by simp
  next
    case (Inr ibs1)
    then have "map fst ibs1 = map fst (sections cfg)"
      using process_image_keys Cons.prems by metis
    then have "image_loop e cfg tomb_name imgs ibs1 \<noteq> Inl KeyError" by (rule Cons.IH)
    with Inr show ?thesis by simp
  qed
qed

lemma extract_no_KeyError: "extract_funerary_text_images e cfg tomb_url \<noteq> Inl KeyError"
  unfolding extract_funerary_text_images_def
  by (auto split: response.splits simp: image_loop_no_KeyError empty_buckets_keys)

lemma configured_mapping_in_sections:
  assumes "(tt, cfg) \<in> set FUNERARY_TEXT_CONFIGS"
  shows "\<forall>v\<in>snd ` set (section_mapping cfg). v \<in> fst ` set (sections cfg)"
proof -
  from assms have "cfg = amduat_config \<or> cfg = caverns_config"
    by (auto simp: FUNERARY_TEXT_CONFIGS_def)
  then show ?thesis
    by (auto simp: amduat_config_def caverns_config_def)
qed

lemma configured_sections_range:
  assumes "(tt, cfg) \<in> set FUNERARY_TEXT_CONFIGS"
  shows "\<forall>s\<in>set (map fst (sections cfg)). 1 \<le> s \<and> s \<le> int (length (sections cfg))"
proof -
  from assms have "cfg = amduat_config \<or> cfg = caverns_config"
    by (auto simp: FUNERARY_TEXT_CONFIGS_def)
  then show ?thesis
    by (auto simp: amduat_config_def caverns_config_def)
qed

text \<open>
  Claim C8. For every configured text type, every value of the ordinal/numeral mapping
  is a key of the sections; and the classifier's result for a page has exactly the keys
  of the sections, so that every image it holds is under a section number that is a key
  of the sections, between 1 and their number. The lookup of the section found never
  raises \<open>KeyError\<close>.
\<close>

theorem emitted_sections_configured:
  assumes "(tt, cfg) \<in> set FUNERARY_TEXT_CONFIGS"
  shows "(\<forall>v\<in>snd ` set (section_mapping cfg). v \<in> fst ` set (sections cfg))
       \<and> extract_funerary_text_images e cfg tomb_url \<noteq> Inl KeyError
       \<and> (extract_funerary_text_images e cfg tomb_url = Inr r \<longrightarrow>
            map fst r = map fst (sections cfg)
            \<and> (\<forall>(s, found)\<in>set r. map_of (sections cfg) s \<noteq> None
                  \<and> 1 \<le> s \<and> s \<le> int (length (sections cfg))))"
proof -
  have a: "\<forall>v\<in>snd ` set (section_mapping cfg). v \<in> fst ` set (sections cfg)"
    using assms by (rule configured_mapping_in_sections)
  have b: "extract_funerary_text_images e cfg tomb_url \<noteq> Inl KeyError"
    by (rule extract_no_KeyError)
  have c: "map fst r = map fst (sections cfg)
            \<and> (\<forall>(s, found)\<in>set r. map_of (sections cfg) s \<noteq> None
                  \<and> 1 \<le> s \<and> s \<le> int (length (sections cfg)))"
    if r: "extract_funerary_text_images e cfg tomb_url = Inr r"
  proof -
    have k: "map fst r = map fst (sections cfg)" using r by (rule extract_keys)
    have "map_of (sections cfg) s \<noteq> None \<and> 1 \<le> s \<and> s \<le> int (length (sections cfg))"
      if "(s, found) \<in> set r" for s found
    proof -
      from that have "s \<in> set (map fst r)" by force
      then have m: "s \<in> set (map fst (sections cfg))" unfolding k .
      then have "map_of (sections cfg) s \<noteq> None" by (simp add: map_of_eq_None_iff)
      with m configured_sections_range [OF assms] show ?thesis by blast
    qed
    with k show ?thesis by blast
  qed
  show ?thesis using a b c by blast
qed

theorem emitted_sections_configured_witness:
  "extract_funerary_text_images wall_env amduat_config ''https://thebanmappingproject.com/tombs/kv-9''
     = Inr [(1, []), (2, []),
            (3, [(''https://thebanmappingproject.com/images/wall.png'',
                  ''Amduat, third hour'', ''KV 9'')]),
            (4, []), (5, []), (6, []), (7, []), (8, []), (9, []), (10, []), (11, []), (12, [])]
   \<and> list_all (\<lambda>v. v \<in> set (map fst (sections amduat_config)))
        (map snd (section_mapping amduat_config))
   \<and> map fst [(1::int, []::(string \<times> string \<times> string) list), (2, []),
            (3, [(''https://thebanmappingproject.com/images/wall.png'',
                  ''Amduat, third hour'', ''KV 9'')]),
            (4, []), (5, []), (6, []), (7, []), (8, []), (9, []), (10, []), (11, []), (12, [])]
       = map fst (sections amduat_config)"
proof -
  let ?r = "[(1::int, []::(string \<times> string \<times> string) list), (2, []),
            (3, [(''https://thebanmappingproject.com/images/wall.png'',
                  ''Amduat, third hour'', ''KV 9'')]),
            (4, []), (5, []), (6, []), (7, []), (8, []), (9, []), (10, []), (11, []), (12, [])]"
  have cfg: "(''amduat'', amduat_config) \<in> set FUNERARY_TEXT_CONFIGS"
    by (simp add: FUNERARY_TEXT_CONFIGS_def)
  have x: "extract_funerary_text_images wall_env amduat_config
             ''https://thebanmappingproject.com/tombs/kv-9'' = Inr ?r"
    by code_simp
  note inst = emitted_sections_configured [OF cfg,
      of wall_env "''https://thebanmappingproject.com/tombs/kv-9''" ?r]
  from inst have "\<forall>v\<in>snd ` set (section_mapping amduat_config).
                    v \<in> fst ` set (sections amduat_config)" by blast
  then have m: "list_all (\<lambda>v. v \<in> set (map fst (sections amduat_config)))
                  (map snd (section_mapping amduat_config))"
    by (simp add: list_all_iff)
  from inst x have k: "map fst ?r = map fst (sections amduat_config)" by blast
  show ?thesis by (intro conjI x m k)
qed

section \<open>Elements with a lazy-load source\<close>

text \<open>
  Claim C2 says that an element with a \<^verbatim>\<open>data-src\<close> attribute is classified like an
  \<open>img\<close> element and that classification never raises. The code appends the plain
  dictionary \<^verbatim>\<open>{'src': src}\<close> for such an element and then reads \<^verbatim>\<open>img.parent\<close> of it:
  for the page with one \<open>div\<close> whose \<^verbatim>\<open>data-src\<close> is \<^verbatim>\<open>/images/wall.png\<close>, both scripts
  raise \<open>AttributeError\<close>, while the same picture as an \<open>img\<close> element is put into
  section 3.
\<close>

theorem data_src_element_raises:
  "page_images lazy_page = [Dict [(''src'', ''/images/wall.png'')]]
   \<and> extract_funerary_text_images lazy_env amduat_config
         ''https://thebanmappingproject.com/tombs/kv-9'' = Inl AttributeError
   \<and> extract_amduat_images lazy_env ''https://thebanmappingproject.com/tombs/kv-9''
       = Inl AttributeError
   \<and> extract_funerary_text_images wall_env amduat_config
         ''https://thebanmappingproject.com/tombs/kv-9''
       = Inr [(1, []), (2, []),
              (3, [(''https://thebanmappingproject.com/images/wall.png'',
                    ''Amduat, third hour'', ''KV 9'')]),
              (4, []), (5, []), (6, []), (7, []), (8, []), (9, []), (10, []), (11, []),
              (12, [])]"
  by code_simp

section \<open>Failures of a tomb page\<close>

lemma ThebanScraper_amduat: "ThebanScraper ''amduat'' = Inr amduat_scraper"
  by (simp add: ThebanScraper_def FUNERARY_TEXT_CONFIGS_def amduat_scraper_def)

lemma extract_not_200:
  assumes "session_get e tomb_url = Response status_code soup" and "status_code \<noteq> 200"
  shows "extract_funerary_text_images e cfg tomb_url = Inr (empty_buckets cfg)"
  using assms by (simp add: extract_funerary_text_images_def)

lemma extract_raises:
  assumes "session_get e tomb_url = ConnectionError"
  shows "extract_funerary_text_images e cfg tomb_url = Inl TransportError"
  using assms by (simp add: extract_funerary_text_images_def)

lemma tomb_loop_raises:
  assumes "session_get e tomb_url = ConnectionError"
  shows "tomb_loop e cfg (tomb_url # tomb_urls) all_imgs = Inl TransportError"
  using assms by (simp add: extract_raises)

text \<open>
  Claim C4 says that a transport failure on one tomb page skips that tomb only. In the
  code the request \<^verbatim>\<open>session.get(tomb_url)\<close> is outside any \<open>try\<close>: only a status other than
  200 is skipped. With two tombs listed and the request for the first one raising, the
  run ends with the exception and the second tomb is never read; when the first
  request is answered with status 404 instead, the run goes on and downloads the
  picture of the second tomb.
\<close>

theorem tomb_transport_failure_aborts:
  "get_tombs_list raising_env
     = Inr [''https://thebanmappingproject.com/tombs/kv-1'',
            ''https://thebanmappingproject.com/tombs/kv-2'']
   \<and> scrape_all_tombs raising_env amduat_scraper = Inl TransportError
   \<and> scrape_all_tombs not_found_env amduat_scraper
       = Inr \<lparr>run_images =
                [(1, []), (2, []),
                 (3, [(''https://thebanmappingproject.com/images/wall.png'',
                       (''Amduat, third hour'', ''KV 9''))]),
                 (4, []), (5, []), (6, []), (7, []), (8, []), (9, []), (10, []), (11, []),
                 (12, [])],
              run_files = [(''amduat/terza_ora/KV_9_Amduat,_third_hour.png'', True)],
              total_downloaded = 1\<rparr>"
  by code_simp

section \<open>Failure of the listing page\<close>

lemma download_all_nothing:
  "\<forall>(k, d)\<in>set all_imgs. d = [] \<Longrightarrow> download_all e base_dir secs all_imgs = Inr []"
  by (induction all_imgs) auto

lemma empty_buckets_all_empty: "\<forall>(k, d)\<in>set (empty_buckets cfg). d = []"
  by (auto simp: empty_buckets_def)

text \<open>
  Claim C9. When the request for the listing page is answered with a status other than
  200, \<open>get_tombs_list\<close> returns the empty list, and \<open>scrape_all_tombs\<close> completes:
  nothing is bucketed, no download is tried, and the summary reports 0 images.
\<close>

theorem listing_failure_downloads_nothing:
  assumes "session_get e (base_url @ ''/valley-kings'') = Response status_code soup"
    and "status_code \<noteq> 200"
  shows "get_tombs_list e = Inr []
       \<and> scrape_all_tombs e self
           = Inr \<lparr>run_images = empty_buckets (scraper_config self), run_files = [],
                  total_downloaded = 0\<rparr>
       \<and> summary \<lparr>run_images = empty_buckets (scraper_config self), run_files = [],
                  total_downloaded = 0\<rparr>
           = [CHR 0x0A] @ ''Scraping complete! Downloaded 0 images''"
proof -
  have a: "get_tombs_list e = Inr []"
    using assms by (simp add: get_tombs_list_def)
  have d: "download_all e (text_type self) (sections (scraper_config self))
             (empty_buckets (scraper_config self)) = Inr []"
    using empty_buckets_all_empty by (rule download_all_nothing)
  have b: "scrape_all_tombs e self
           = Inr \<lparr>run_images = empty_buckets (scraper_config self), run_files = [],
                  total_downloaded = 0\<rparr>"
    by (simp add: scrape_all_tombs_def a d)
  have c: "summary \<lparr>run_images = empty_buckets (scraper_config self), run_files = [],
                  total_downloaded = 0\<rparr>
           = [CHR 0x0A] @ ''Scraping complete! Downloaded 0 images''"
    by (simp add: summary_def str_nat.simps)
  show ?thesis by (intro conjI a b c)
qed

theorem listing_failure_downloads_nothing_witness:
  "session_get no_listing_env (base_url @ ''/valley-kings'')
     = Response 503 (Elem ''[document]'' [] [])
   \<and> get_tombs_list no_listing_env = Inr []
   \<and> scrape_all_tombs no_listing_env amduat_scraper
       = Inr \<lparr>run_images = empty_buckets amduat_config, run_files = [], total_downloaded = 0\<rparr>"
proof -
  have h: "session_get no_listing_env (base_url @ ''/valley-kings'')
             = Response 503 (Elem ''[document]'' [] [])"
    by (simp add: no_listing_env_def base_url_def)
  have n: "(503::int) \<noteq> 200" by simp
  from listing_failure_downloads_nothing [OF h n, of amduat_scraper]
  have "get_tombs_list no_listing_env = Inr []"
    and "scrape_all_tombs no_listing_env amduat_scraper
       = Inr \<lparr>run_images = empty_buckets amduat_config, run_files = [], total_downloaded = 0\<rparr>"
    by (simp_all add: amduat_scraper_def)
  with h show ?thesis by (intro conjI)
qed

section \<open>The run-wide dictionary\<close>

lemma merge_img_data_append:
  "merge_img_data (xs @ ys) d = merge_img_data ys (merge_img_data xs d)"
  by (induction xs d rule: merge_img_data.induct) simp_all

lemma merge_img_data_Nil: "merge_img_data [] = (\<lambda>d. d)"
  by (rule ext) simp

lemma merge_img_data_map_of:
  "map_of (merge_img_data l d) = map_of (d @ map as_entry l)"
proof (induction l d rule: merge_img_data.induct)
  case (1 d)
  show ?case by simp
next
  case (2 img_url caption tomb_name rest d)
  let ?d' = "if map_of d img_url = None then AList.update img_url (caption, tomb_name) d else d"
  have "map_of (?d' @ map as_entry rest)
          = map_of (d @ map as_entry ((img_url, caption, tomb_name) # rest))"
    by (auto simp: fun_eq_iff map_add_def update_conv' as_entry_def split: option.splits)
  with 2 show ?case by simp
qed

lemma merge_img_data_distinct:
  "distinct (map fst d) \<Longrightarrow> distinct (map fst (merge_img_data l d))"
  by (induction l d rule: merge_img_data.induct) (simp_all add: distinct_update)

lemma merge_sections_lookup:
  assumes "merge_sections ibs all_imgs = Inr all_imgs'" and "distinct (map fst ibs)"
  shows "map_of all_imgs' s
           = map_option (merge_img_data (case map_of ibs s of None \<Rightarrow> [] | Some l \<Rightarrow> l))
               (map_of all_imgs s)"
  using assms
proof (induction ibs arbitrary: all_imgs)
  case Nil
  then show ?case by (simp add: option.map_ident)
next
  case (Cons entry rest)
  obtain sec img_data where entry: "entry = (sec, img_data)" by (cases entry)
  from Cons.prems(2) entry have nr: "map_of rest sec = None" and dr: "distinct (map fst rest)"
    by (simp_all add: map_of_eq_None_iff)
  show ?case
  proof (cases "img_data = []")
    case True
    with Cons.prems(1) entry have "merge_sections rest all_imgs = Inr all_imgs'" by simp
    then have "map_of all_imgs' s
           = map_option (merge_img_data (case map_of rest s of None \<Rightarrow> [] | Some l \<Rightarrow> l))
               (map_of all_imgs s)"
      using dr by (rule Cons.IH)
    with True entry nr show ?thesis by (simp add: merge_img_data_Nil option.map_ident)
  next
    case False
    with Cons.prems(1) entry obtain d where d: "map_of all_imgs sec = Some d"
      and m: "merge_sections rest (AList.update sec (merge_img_data img_data d) all_imgs)
                = Inr all_imgs'"
      by (auto split: option.splits)
    from m dr have "map_of all_imgs' s
           = map_option (merge_img_data (case map_of rest s of None \<Rightarrow> [] | Some l \<Rightarrow> l))
               (map_of (AList.update sec (merge_img_data img_data d) all_imgs) s)"
      by (rule Cons.IH)
    with entry nr d show ?thesis by (simp add: update_conv' merge_img_data_Nil)
  qed
qed

lemma tomb_loop_lookup:
  assumes "tomb_loop e cfg tomb_urls all_imgs = Inr all_imgs'"
    and "distinct (map fst (sections cfg))"
  shows "map_of all_imgs' s
           = map_option (merge_img_data (found_for e cfg s tomb_urls)) (map_of all_imgs s)"
  using assms(1)
proof (induction tomb_urls arbitrary: all_imgs)
  case Nil
  then show ?case by (simp add: found_for_def option.map_ident)
next
  case (Cons u us)
  then obtain ibs all1 where x: "extract_funerary_text_images e cfg u = Inr ibs"
    and m: "merge_sections ibs all_imgs = Inr all1"
    and l: "tomb_loop e cfg us all1 = Inr all_imgs'"
    by (auto split: sum.splits)
  have "distinct (map fst ibs)" using extract_keys [OF x] assms(2) by simp
  with m have 1: "map_of all1 s
           = map_option (merge_img_data (case map_of ibs s of None \<Rightarrow> [] | Some l \<Rightarrow> l))
               (map_of all_imgs s)"
    by (rule merge_sections_lookup)
  from l have 2: "map_of all_imgs' s
           = map_option (merge_img_data (found_for e cfg s us)) (map_of all1 s)"
    by (rule Cons.IH)
  have f: "found_for e cfg s (u # us)
             = (case map_of ibs s of None \<Rightarrow> [] | Some l \<Rightarrow> l) @ found_for e cfg s us"
    by (simp add: found_for_def x)
  show ?case
    unfolding 2 1 f by (simp add: option.map_comp comp_def merge_img_data_append)
qed

lemma map_of_empty_buckets:
  "map_of (empty_buckets cfg) s = map_option (\<lambda>x. []) (map_of (sections cfg) s)"
  unfolding empty_buckets_def by (induction "sections cfg" arbitrary: cfg) (auto simp: map_of_map)

lemma one_entry_per_key:
  "distinct (map fst d) \<Longrightarrow> k \<in> fst ` set d \<Longrightarrow> length (filter (\<lambda>ent. fst ent = k) d) = 1"
proof (induction d)
  case Nil
  then show ?case by simp
next
  case (Cons a d)
  show ?case
  proof (cases "fst a = k")
    case True
    with Cons.prems(1) have "k \<notin> fst ` set d" by auto
    then have "\<forall>ent\<in>set d. fst ent \<noteq> k" by (auto simp: image_iff)
    then have "filter (\<lambda>ent. fst ent = k) d = []"
      unfolding filter_empty_conv by blast
    with True show ?thesis by simp
  next
    case False
    with Cons show ?thesis by auto
  qed
qed

text \<open>
  Claim C5. After the loop over the tombs, the run-wide dictionary of every section has
  one entry per image URL, however often and with whatever captions and tomb names the
  classifier produced that URL for the section, and the entry holds the caption and the
  tomb name of the first time the URL was produced.
\<close>

theorem first_seen_entry_kept:
  assumes "distinct (map fst (sections cfg))"
    and "tomb_loop e cfg tomb_urls (empty_buckets cfg) = Inr all_imgs"
    and "map_of (sections cfg) s \<noteq> None"
  shows "\<exists>d. map_of all_imgs s = Some d
           \<and> distinct (map fst d)
           \<and> (\<forall>img_url. map_of d img_url
                          = map_of (map as_entry (found_for e cfg s tomb_urls)) img_url)
           \<and> (\<forall>entry\<in>set (found_for e cfg s tomb_urls).
                 length (filter (\<lambda>ent. fst ent = fst entry) d) = 1)"
proof -
  let ?found = "found_for e cfg s tomb_urls"
  let ?d = "merge_img_data ?found []"
  from assms(3) have "map_of (empty_buckets cfg :: all_images) s = Some []"
    by (auto simp: map_of_empty_buckets)
  with tomb_loop_lookup [OF assms(2) assms(1), of s]
  have a: "map_of all_imgs s = Some ?d" by simp
  have b: "distinct (map fst ?d)" by (rule merge_img_data_distinct) simp
  have c: "map_of ?d = map_of (map as_entry ?found)"
    using merge_img_data_map_of [of ?found "[]"] by simp
  have d: "length (filter (\<lambda>ent. fst ent = fst entry) ?d) = 1" if "entry \<in> set ?found" for entry
  proof -
    from that have "fst entry \<in> fst ` set (map as_entry ?found)"
      by (force simp: as_entry_def case_prod_unfold)
    then have "map_of (map as_entry ?found) (fst entry) \<noteq> None"
      by (simp add: map_of_eq_None_iff)
    then have "map_of ?d (fst entry) \<noteq> None" unfolding c .
    then have "fst entry \<in> fst ` set ?d" by (simp add: map_of_eq_None_iff)
    with b show ?thesis by (rule one_entry_per_key)
  qed
  from a b c d show ?thesis by auto
qed

theorem first_seen_entry_kept_witness:
  "found_for two_tombs_env amduat_config 2
      [''https://thebanmappingproject.com/tombs/kv-1'',
       ''https://thebanmappingproject.com/tombs/kv-2'']
     = [(''https://thebanmappingproject.com/images/wall.png'',
         ''Amduat, second hour, north wall'', ''KV 1''),
        (''https://thebanmappingproject.com/images/wall.png'',
         ''Imydwat, second hour, detail'', ''KV 2'')]
   \<and> tomb_loop two_tombs_env amduat_config
        [''https://thebanmappingproject.com/tombs/kv-1'',
         ''https://thebanmappingproject.com/tombs/kv-2'']
        (empty_buckets amduat_config)
     = Inr [(1, []),
            (2, [(''https://thebanmappingproject.com/images/wall.png'',
                  (''Amduat, second hour, north wall'', ''KV 1''))]),
            (3, []), (4, []), (5, []), (6, []), (7, []), (8, []), (9, []), (10, []),
            (11, []), (12, [])]
   \<and> map_of (map as_entry (found_for two_tombs_env amduat_config 2
        [''https://thebanmappingproject.com/tombs/kv-1'',
         ''https://thebanmappingproject.com/tombs/kv-2'']))
        ''https://thebanmappingproject.com/images/wall.png''
     = Some (''Amduat, second hour, north wall'', ''KV 1'')"
proof -
  let ?urls = "[''https://thebanmappingproject.com/tombs/kv-1'',
                ''https://thebanmappingproject.com/tombs/kv-2'']"
  let ?u = "''https://thebanmappingproject.com/images/wall.png''"
  let ?R = "[(1::int, []),
            (2, [(?u, (''Amduat, second hour, north wall'', ''KV 1''))]),
            (3, []), (4, []), (5, []), (6, []), (7, []), (8, []), (9, []), (10, []),
            (11, []), (12, [])] :: all_images"
  have f: "found_for two_tombs_env amduat_config 2 ?urls
     = [(?u, ''Amduat, second hour, north wall'', ''KV 1''),
        (?u, ''Imydwat, second hour, detail'', ''KV 2'')]"
    by code_simp
  have x: "tomb_loop two_tombs_env amduat_config ?urls (empty_buckets amduat_config) = Inr ?R"
    by code_simp
  have h1: "distinct (map fst (sections amduat_config))"
    by (simp add: amduat_config_def)
  have h3: "map_of (sections amduat_config) 2 \<noteq> None"
    by (simp add: amduat_config_def)
  from first_seen_entry_kept [OF h1 x h3]
  obtain d where d: "map_of ?R 2 = Some d"
    and m: "\<forall>img_url. map_of d img_url
              = map_of (map as_entry (found_for two_tombs_env amduat_config 2 ?urls)) img_url"
    by blast
  from d have "d = [(?u, (''Amduat, second hour, north wall'', ''KV 1''))]" by simp
  with m have k: "map_of (map as_entry (found_for two_tombs_env amduat_config 2 ?urls)) ?u
                    = Some (''Amduat, second hour, north wall'', ''KV 1'')"
    by (metis map_of_Cons_code(2))
  show ?thesis by (intro conjI f x k)
qed

end
